theory Spec2Isabelle
  imports Complex_Main "HOL-Library.AList" "HOL-Library.Countable" "HOL-Library.Multiset"
begin

section \<open>Air traffic control simulator: kinematics, conflict geometry, bounded A* search\<close>

text \<open>
  The development follows \<^verbatim>\<open>src/atc_simulator.py\<close>. Python floats are modelled as
  mathematical reals (no rounding error, no NaN); \<^verbatim>\<open>float('inf')\<close> is a separate
  constructor of the type of horizontal distances. Objects are modelled by value.
\<close>

subsection \<open>Aircraft and maneuvers\<close>

text \<open>
  \<^verbatim>\<open>class Aircraft\<close>: the fields the core reads and writes. The coordinates are named
  \<open>ac_x\<close>, \<open>ac_y\<close>, \<open>ac_z\<close> for \<^verbatim>\<open>x\<close>, \<^verbatim>\<open>y\<close>, \<^verbatim>\<open>z\<close>.
\<close>

record Aircraft =
  ac_callsign :: string
  ac_x :: real
  ac_y :: real
  ac_z :: real
  ac_speed :: real
  ac_heading :: real
  ac_conflict_alert :: bool

definition HORIZONTAL_MIN :: real where
  "HORIZONTAL_MIN = 5"

definition VERTICAL_MIN :: real where
  "VERTICAL_MIN = 1000"

text \<open>Python's \<^verbatim>\<open>a % b\<close> on floats, for a positive divisor: the result has the sign of \<open>b\<close>.\<close>

definition py_mod :: "real \<Rightarrow> real \<Rightarrow> real" where
  "py_mod a b = a - b * of_int \<lfloor>a / b\<rfloor>"

text \<open>\<^verbatim>\<open>Aircraft.__init__\<close>: the heading is normalised, the alert flag starts cleared.\<close>

definition Aircraft_init :: "string \<Rightarrow> real \<Rightarrow> real \<Rightarrow> real \<Rightarrow> real \<Rightarrow> real \<Rightarrow> Aircraft" where
  "Aircraft_init cs x y z speed_knots heading_deg =
     \<lparr>ac_callsign = cs, ac_x = x, ac_y = y, ac_z = z, ac_speed = speed_knots,
      ac_heading = py_mod heading_deg 360, ac_conflict_alert = False\<rparr>"

text \<open>\<^verbatim>\<open>class Maneuver\<close> and its cost.\<close>

record Maneuver =
  mv_callsign :: string
  heading_change :: real
  altitude_change :: real
  speed_change :: real

definition Maneuver_init :: "string \<Rightarrow> real \<Rightarrow> real \<Rightarrow> real \<Rightarrow> Maneuver" where
  "Maneuver_init cs hc ac sc =
     \<lparr>mv_callsign = cs, heading_change = hc, altitude_change = ac, speed_change = sc\<rparr>"

definition cost :: "Maneuver \<Rightarrow> real" where
  "cost m = \<bar>heading_change m\<bar> * (1 / 10) + \<bar>altitude_change m / 1000\<bar> * (1 / 2)
            + \<bar>speed_change m / 50\<bar> * (2 / 10)"

text \<open>
  \<^verbatim>\<open>Aircraft.apply_maneuver\<close>: the three assignments, in the source's order, in exact
  arithmetic. The search below is modelled with this reading; the binary64 reading of the
  same assignments is \<open>apply_maneuver_f64\<close>.
\<close>

definition apply_maneuver :: "Aircraft \<Rightarrow> Maneuver \<Rightarrow> Aircraft" where
  "apply_maneuver ac m =
     ac\<lparr>ac_heading := py_mod (ac_heading ac + heading_change m) 360,
        ac_z := max 5000 (ac_z ac + altitude_change m),
        ac_speed := max 200 (ac_speed ac + speed_change m)\<rparr>"

subsection \<open>Binary64 arithmetic\<close>


definition round_half_even :: "real \<Rightarrow> int" where
  "round_half_even v =
     (let f = \<lfloor>v\<rfloor>; d = v - of_int f
      in if d < 1 / 2 then f else if 1 / 2 < d then f + 1 else if even f then f else f + 1)"







subsection \<open>Search nodes\<close>

text \<open>
  A kinematic vector \<^verbatim>\<open>(x, y, z, speed, heading)\<close>. The dictionary \<^verbatim>\<open>aircraft_states\<close> is
  an association list in insertion order (\<^verbatim>\<open>values()\<close> is read in that order by
  \<^verbatim>\<open>__hash__\<close>); storing under a key that is present replaces the value in place.
\<close>

type_synonym kin = "real \<times> real \<times> real \<times> real \<times> real"

text \<open>
  \<^verbatim>\<open>class ConflictState\<close>. The constructor is called in two ways only: for the root
  (\<^verbatim>\<open>parent\<close> and \<^verbatim>\<open>maneuver\<close> both \<^verbatim>\<open>None\<close>) and for a successor (both given), so the two
  fields are one optional pair \<open>link\<close>.
\<close>

datatype ConflictState =
  ConflictState
    (aircraft_states: "(string \<times> kin) list")
    (g_cost: real)
    (h_cost: real)
    (f_cost: real)
    (link: "(ConflictState \<times> Maneuver) option")

text \<open>\<^verbatim>\<open>ConflictState.__lt__\<close>, the order \<^verbatim>\<open>heapq\<close> uses.\<close>

definition cs_lt :: "ConflictState \<Rightarrow> ConflictState \<Rightarrow> bool" where
  "cs_lt a b \<longleftrightarrow> f_cost a < f_cost b"

definition get_aircraft_data :: "ConflictState \<Rightarrow> string \<Rightarrow> kin" where
  "get_aircraft_data st cs =
     (case map_of (aircraft_states st) cs of None \<Rightarrow> (0, 0, 0, 0, 0) | Some v \<Rightarrow> v)"

text \<open>
  Python's \<^verbatim>\<open>round(v, 0)\<close> and \<^verbatim>\<open>round(v, 1)\<close>: to the nearest, ties to the even
  neighbour. \<open>py_round0\<close> gives the integer \<^verbatim>\<open>round(v, 0)\<close> is equal to, \<open>py_round1\<close> the
  number of tenths of \<^verbatim>\<open>round(v, 1)\<close>.
\<close>

definition py_round0 :: "real \<Rightarrow> int" where
  "py_round0 v =
     (let f = \<lfloor>v\<rfloor>; d = v - of_int f
      in if d < 1 / 2 then f else if 1 / 2 < d then f + 1 else if even f then f else f + 1)"

definition py_round1 :: "real \<Rightarrow> int" where
  "py_round1 v = py_round0 (v * 10)"

text \<open>
  The tuple \<^verbatim>\<open>state_tuple\<close> built by \<^verbatim>\<open>ConflictState.__hash__\<close>, and the hash of a node.
  Python's built-in \<^verbatim>\<open>hash\<close> on tuples is a parameter \<open>hf\<close> of the search.
\<close>

type_synonym fingerprint = "(int \<times> int \<times> int \<times> int \<times> int) list"

definition state_tuple :: "ConflictState \<Rightarrow> fingerprint" where
  "state_tuple st =
     map (\<lambda>(k, (x, y, z, s, h)). (py_round0 x, py_round0 y, py_round0 z, py_round0 s, py_round1 h))
       (aircraft_states st)"

definition cs_hash :: "(fingerprint \<Rightarrow> int) \<Rightarrow> ConflictState \<Rightarrow> int" where
  "cs_hash hf st = hf (state_tuple st)"

text \<open>A collision-free choice of \<open>hf\<close>, for running the search on concrete inputs.\<close>

definition ideal_hash :: "fingerprint \<Rightarrow> int" where
  "ideal_hash fp = int (to_nat fp)"

subsection \<open>The priority queue: \<^verbatim>\<open>heapq\<close> on a list\<close>

text \<open>
  \<^verbatim>\<open>heapq._siftdown\<close>, \<^verbatim>\<open>heapq._siftup\<close>, \<^verbatim>\<open>heappush\<close> and \<^verbatim>\<open>heappop\<close> of the standard
  library, with the item order \<open>lt\<close> as a parameter. \<open>siftdown_loop\<close> is the loop of
  \<^verbatim>\<open>_siftdown\<close> followed by its final store; \<open>siftup_loop\<close> is the loop of \<^verbatim>\<open>_siftup\<close>
  and returns the list with the position of the emptied leaf.
\<close>

function siftdown_loop :: "('a \<Rightarrow> 'a \<Rightarrow> bool) \<Rightarrow> 'a list \<Rightarrow> nat \<Rightarrow> nat \<Rightarrow> 'a \<Rightarrow> 'a list" where
  "siftdown_loop lt heap startpos pos newitem =
     (if startpos < pos then
        (let parentpos = (pos - 1) div 2; parent = heap ! parentpos
         in if lt newitem parent
            then siftdown_loop lt (heap[pos := parent]) startpos parentpos newitem
            else heap[pos := newitem])
      else heap[pos := newitem])"
  by pat_completeness auto
termination
  by (relation "measure (\<lambda>(lt, heap, startpos, pos, newitem). pos)") auto

declare siftdown_loop.simps [simp del]

definition siftdown :: "('a \<Rightarrow> 'a \<Rightarrow> bool) \<Rightarrow> 'a list \<Rightarrow> nat \<Rightarrow> nat \<Rightarrow> 'a list" where
  "siftdown lt heap startpos pos = siftdown_loop lt heap startpos pos (heap ! pos)"

function siftup_loop :: "('a \<Rightarrow> 'a \<Rightarrow> bool) \<Rightarrow> 'a list \<Rightarrow> nat \<Rightarrow> nat \<Rightarrow> 'a list \<times> nat" where
  "siftup_loop lt heap pos endpos =
     (let childpos = 2 * pos + 1
      in if childpos < endpos then
           (let rightpos = childpos + 1;
                childpos' = (if rightpos < endpos \<and> \<not> lt (heap ! childpos) (heap ! rightpos)
                             then rightpos else childpos)
            in siftup_loop lt (heap[pos := heap ! childpos']) childpos' endpos)
         else (heap, pos))"
  by pat_completeness auto
termination
  by (relation "measure (\<lambda>(lt, heap, pos, endpos). endpos - pos)") (auto simp: Let_def)

declare siftup_loop.simps [simp del]

definition siftup :: "('a \<Rightarrow> 'a \<Rightarrow> bool) \<Rightarrow> 'a list \<Rightarrow> nat \<Rightarrow> 'a list" where
  "siftup lt heap pos =
     (let newitem = heap ! pos;
          (heap', pos') = siftup_loop lt heap pos (length heap)
      in siftdown lt (heap'[pos' := newitem]) pos pos')"

definition heappush :: "('a \<Rightarrow> 'a \<Rightarrow> bool) \<Rightarrow> 'a list \<Rightarrow> 'a \<Rightarrow> 'a list" where
  "heappush lt heap item = siftdown lt (heap @ [item]) 0 (length heap)"

text \<open>\<open>heappop\<close> returns the item and the remaining heap; \<open>None\<close> is the \<^verbatim>\<open>IndexError\<close> on an empty list.\<close>

definition heappop :: "('a \<Rightarrow> 'a \<Rightarrow> bool) \<Rightarrow> 'a list \<Rightarrow> ('a \<times> 'a list) option" where
  "heappop lt heap =
     (if heap = [] then None
      else (let lastelt = last heap; heap1 = butlast heap
            in if heap1 \<noteq> [] then Some (heap1 ! 0, siftup lt (heap1[0 := lastelt]) 0)
               else Some (lastelt, heap1)))"

subsection \<open>Conflict geometry and heuristic\<close>

text \<open>
  \<^verbatim>\<open>class ConflictResolver\<close>: the pair and the lookahead. \<^verbatim>\<open>MANEUVER_OPTIONS\<close> is built by the
  constructor from the two callsigns, so it is a function of the resolver.
\<close>

record ConflictResolver =
  res_A :: Aircraft
  res_B :: Aircraft
  lookahead_hrs :: real

definition ConflictResolver_init :: "Aircraft \<times> Aircraft \<Rightarrow> real \<Rightarrow> ConflictResolver" where
  "ConflictResolver_init conflict_pair lookahead =
     \<lparr>res_A = fst conflict_pair, res_B = snd conflict_pair, lookahead_hrs = lookahead\<rparr>"

definition MANEUVER_OPTIONS :: "ConflictResolver \<Rightarrow> Maneuver list" where
  "MANEUVER_OPTIONS rs =
     map (\<lambda>d. Maneuver_init (ac_callsign (res_A rs)) d 0 0) [-10, 10, -5, 5]
     @ map (\<lambda>d. Maneuver_init (ac_callsign (res_B rs)) d 0 0) [-10, 10, -5, 5]
     @ map (\<lambda>d. Maneuver_init (ac_callsign (res_A rs)) 0 d 0) [-1000, 1000]
     @ map (\<lambda>d. Maneuver_init (ac_callsign (res_B rs)) 0 d 0) [-1000, 1000]"

text \<open>A horizontal distance: a real, or \<^verbatim>\<open>float('inf')\<close>.\<close>

datatype hdist = Finite real | Infinity

definition radians :: "real \<Rightarrow> real" where
  "radians d = d * pi / 180"

text \<open>\<^verbatim>\<open>ConflictResolver._calculate_cpa\<close>, on the two vectors it reads and the lookahead.\<close>

definition cpa_of :: "real \<Rightarrow> kin \<Rightarrow> kin \<Rightarrow> hdist \<times> real \<times> real" where
  "cpa_of lookahead a b =
     (case a of (ax, ay, az, aspd, ahead) \<Rightarrow>
      case b of (bx, by, bz, bspd, bhead) \<Rightarrow>
        let vertical_sep = \<bar>az - bz\<bar>
        in if vertical_sep \<ge> VERTICAL_MIN then (Infinity, vertical_sep, 0)
           else
             let vax = aspd * sin (radians ahead);
                 vay = aspd * cos (radians ahead);
                 vbx = bspd * sin (radians bhead);
                 vby = bspd * cos (radians bhead);
                 vrx = vbx - vax;
                 vry = vby - vay;
                 rx = bx - ax;
                 ry = by - ay;
                 v_rel_sq = vrx\<^sup>2 + vry\<^sup>2
             in if v_rel_sq < 1 / 1000
                then (Finite (sqrt (rx\<^sup>2 + ry\<^sup>2)), vertical_sep, lookahead / 2)
                else
                  let tcpa = - (rx * vrx + ry * vry) / v_rel_sq;
                      min_sep_dist =
                        (if tcpa < 0 then sqrt (rx\<^sup>2 + ry\<^sup>2)
                         else sqrt ((rx + vrx * tcpa)\<^sup>2 + (ry + vry * tcpa)\<^sup>2));
                      min_sep_dist' =
                        (if tcpa > lookahead
                         then min min_sep_dist
                                (sqrt ((rx + vrx * lookahead)\<^sup>2 + (ry + vry * lookahead)\<^sup>2))
                         else min_sep_dist)
                  in (Finite min_sep_dist', vertical_sep, max 0 tcpa))"

definition calculate_cpa :: "ConflictResolver \<Rightarrow> ConflictState \<Rightarrow> hdist \<times> real \<times> real" where
  "calculate_cpa rs state =
     cpa_of (lookahead_hrs rs)
       (get_aircraft_data state (ac_callsign (res_A rs)))
       (get_aircraft_data state (ac_callsign (res_B rs)))"

text \<open>
  \<^verbatim>\<open>ConflictResolver._heuristic\<close>. With \<^verbatim>\<open>h_dist = inf\<close> the comparison
  \<^verbatim>\<open>h_dist >= H_MIN\<close> holds and \<^verbatim>\<open>max(0, H_MIN - h_dist)\<close> is \<^verbatim>\<open>0\<close>.
\<close>

definition hdist_ge :: "hdist \<Rightarrow> real \<Rightarrow> bool" where
  "hdist_ge d c = (case d of Infinity \<Rightarrow> True | Finite r \<Rightarrow> r \<ge> c)"

definition hdist_deficit :: "real \<Rightarrow> hdist \<Rightarrow> real" where
  "hdist_deficit c d = (case d of Infinity \<Rightarrow> 0 | Finite r \<Rightarrow> max 0 (c - r))"

definition heuristic :: "ConflictResolver \<Rightarrow> ConflictState \<Rightarrow> real" where
  "heuristic rs state =
     (case calculate_cpa rs state of (h_dist, h_v_sep, _) \<Rightarrow>
        if hdist_ge h_dist HORIZONTAL_MIN \<and> h_v_sep \<ge> VERTICAL_MIN then 0
        else
          let horizontal_penalty = hdist_deficit HORIZONTAL_MIN h_dist / HORIZONTAL_MIN;
              vertical_penalty = max 0 (VERTICAL_MIN - h_v_sep) / VERTICAL_MIN
          in (horizontal_penalty + vertical_penalty) * 5)"

subsection \<open>Bounded A* search\<close>

datatype py_error = KeyError | IndexError

text \<open>The root node built at the start of \<^verbatim>\<open>a_star_search\<close>.\<close>

definition kin_of :: "Aircraft \<Rightarrow> kin" where
  "kin_of ac = (ac_x ac, ac_y ac, ac_z ac, ac_speed ac, ac_heading ac)"

definition initial_aircraft_data :: "ConflictResolver \<Rightarrow> (string \<times> kin) list" where
  "initial_aircraft_data rs =
     AList.update (ac_callsign (res_B rs)) (kin_of (res_B rs))
       (AList.update (ac_callsign (res_A rs)) (kin_of (res_A rs)) [])"

definition with_heuristic :: "ConflictResolver \<Rightarrow> ConflictState \<Rightarrow> ConflictState" where
  "with_heuristic rs st =
     (let h = heuristic rs st
      in ConflictState (aircraft_states st) (g_cost st) h (g_cost st + h) (link st))"

definition initial_state :: "ConflictResolver \<Rightarrow> ConflictState" where
  "initial_state rs = with_heuristic rs (ConflictState (initial_aircraft_data rs) 0 0 0 None)"

text \<open>
  The body of the \<^verbatim>\<open>for maneuver in self.MANEUVER_OPTIONS\<close> loop up to the computation of
  the successor's costs. The read \<^verbatim>\<open>new_aircraft_states[callsign]\<close> raises \<^verbatim>\<open>KeyError\<close> on an
  absent key.
\<close>

definition successor :: "ConflictResolver \<Rightarrow> ConflictState \<Rightarrow> Maneuver \<Rightarrow> py_error + ConflictState" where
  "successor rs current_state maneuver =
     (let callsign = mv_callsign maneuver
      in case map_of (aircraft_states current_state) callsign of
           None \<Rightarrow> Inl KeyError
         | Some (x, y, z, speed, heading) \<Rightarrow>
             let temp_ac = apply_maneuver (Aircraft_init callsign x y z speed heading) maneuver;
                 new_aircraft_states =
                   AList.update callsign (kin_of temp_ac) (aircraft_states current_state)
             in Inr (with_heuristic rs
                  (ConflictState new_aircraft_states (g_cost current_state + cost maneuver) 0 0
                     (Some (current_state, maneuver)))))"

text \<open>
  The loop variables \<^verbatim>\<open>open_list\<close> and \<^verbatim>\<open>g_scores\<close> of \<^verbatim>\<open>a_star_search\<close>; the counter
  \<^verbatim>\<open>nodes_explored\<close> is an argument of the loop below.
\<close>

record search_state =
  open_list :: "ConflictState list"
  g_scores :: "int \<rightharpoonup> real"

definition max_search_nodes :: nat where
  "max_search_nodes = 1000"

text \<open>The rest of the \<^verbatim>\<open>for\<close> body: duplicate suppression, recording, push.\<close>

definition push_successor :: "(fingerprint \<Rightarrow> int) \<Rightarrow> ConflictState \<Rightarrow> search_state \<Rightarrow> search_state" where
  "push_successor hf succ st =
     (let state_hash = cs_hash hf succ
      in case g_scores st state_hash of
           Some g \<Rightarrow>
             if g_cost succ \<ge> g then st
             else st\<lparr>open_list := heappush cs_lt (open_list st) succ,
                     g_scores := (g_scores st)(state_hash \<mapsto> g_cost succ)\<rparr>
         | None \<Rightarrow>
             st\<lparr>open_list := heappush cs_lt (open_list st) succ,
                g_scores := (g_scores st)(state_hash \<mapsto> g_cost succ)\<rparr>)"

fun expand :: "(fingerprint \<Rightarrow> int) \<Rightarrow> ConflictResolver \<Rightarrow> ConflictState \<Rightarrow> Maneuver list
    \<Rightarrow> search_state \<Rightarrow> py_error + search_state" where
  "expand hf rs current_state [] st = Inr st"
| "expand hf rs current_state (maneuver # ms) st =
     (case successor rs current_state maneuver of
        Inl e \<Rightarrow> Inl e
      | Inr succ \<Rightarrow> expand hf rs current_state ms (push_successor hf succ st))"

text \<open>The path returned on success: the maneuvers along the parent links, reversed.\<close>

fun path_walk :: "ConflictState \<Rightarrow> Maneuver list" where
  "path_walk (ConflictState sts g h f None) = []"
| "path_walk (ConflictState sts g h f (Some (p, m))) = m # path_walk p"

definition reconstruct_path :: "ConflictState \<Rightarrow> Maneuver list" where
  "reconstruct_path st = rev (path_walk st)"

text \<open>
  The body of the \<^verbatim>\<open>while\<close> loop after \<^verbatim>\<open>nodes_explored += 1\<close>: either the function
  returns (an error is raised, or a path is returned), or the loop goes on with new
  variables.
\<close>

definition astar_step :: "(fingerprint \<Rightarrow> int) \<Rightarrow> ConflictResolver \<Rightarrow> search_state
    \<Rightarrow> (py_error + Maneuver list) + search_state" where
  "astar_step hf rs st =
     (case heappop cs_lt (open_list st) of
        None \<Rightarrow> Inl (Inl IndexError)
      | Some (current_state, rest) \<Rightarrow>
          if h_cost current_state = 0 then Inl (Inr (reconstruct_path current_state))
          else
            (case expand hf rs current_state (MANEUVER_OPTIONS rs) (st\<lparr>open_list := rest\<rparr>) of
               Inl e \<Rightarrow> Inl (Inl e)
             | Inr st' \<Rightarrow> Inr st'))"

text \<open>
  The \<^verbatim>\<open>while open_list and nodes_explored < max_search_nodes\<close> loop. The result is the
  value returned (\<open>Inr None\<close> for \<^verbatim>\<open>return None\<close>) together with the loop variables and
  the value of \<^verbatim>\<open>nodes_explored\<close>, the number of pops, at that moment.
\<close>

function astar_loop :: "(fingerprint \<Rightarrow> int) \<Rightarrow> ConflictResolver \<Rightarrow> search_state \<Rightarrow> nat
    \<Rightarrow> (py_error + Maneuver list option) \<times> search_state \<times> nat" where
  "astar_loop hf rs st nodes_explored =
     (if open_list st \<noteq> [] \<and> nodes_explored < max_search_nodes then
        (case astar_step hf rs st of
           Inl (Inl e) \<Rightarrow> (Inl e, st, nodes_explored + 1)
         | Inl (Inr path) \<Rightarrow> (Inr (Some path), st, nodes_explored + 1)
         | Inr st' \<Rightarrow> astar_loop hf rs st' (nodes_explored + 1))
      else (Inr None, st, nodes_explored))"
  by pat_completeness auto
termination
  by (relation "measure (\<lambda>(hf, rs, st, nodes_explored). max_search_nodes - nodes_explored)") auto

declare astar_loop.simps [simp del]

definition init_search_state :: "(fingerprint \<Rightarrow> int) \<Rightarrow> ConflictResolver \<Rightarrow> search_state" where
  "init_search_state hf rs =
     \<lparr>open_list = [initial_state rs],
      g_scores = [cs_hash hf (initial_state rs) \<mapsto> 0]\<rparr>"

definition astar_run :: "(fingerprint \<Rightarrow> int) \<Rightarrow> ConflictResolver
    \<Rightarrow> (py_error + Maneuver list option) \<times> search_state \<times> nat" where
  "astar_run hf rs = astar_loop hf rs (init_search_state hf rs) 0"

text \<open>\<^verbatim>\<open>ConflictResolver.a_star_search\<close>: the value returned, or the error raised.\<close>

definition a_star_search :: "(fingerprint \<Rightarrow> int) \<Rightarrow> ConflictResolver \<Rightarrow> py_error + Maneuver list option" where
  "a_star_search hf rs = fst (astar_run hf rs)"

text \<open>The number of nodes popped by \<^verbatim>\<open>a_star_search\<close>.\<close>

definition pops :: "(fingerprint \<Rightarrow> int) \<Rightarrow> ConflictResolver \<Rightarrow> nat" where
  "pops hf rs = snd (snd (astar_run hf rs))"

subsection \<open>The search on floats\<close>






















subsection \<open>The specification's wording of closest approach\<close>

text \<open>
  The quantities the specification names when it describes \<open>closest_approach\<close>: relative
  position \<open>B - A\<close>, relative velocity \<open>vB - vA\<close> resolved from speed and heading, the
  dot-product formula for the time of closest approach, and the separation under linear
  relative motion at a time \<open>t\<close>. They are written from the specification and compared
  with \<open>cpa_of\<close> below.
\<close>

type_synonym vec2 = "real \<times> real"

definition kin_z :: "kin \<Rightarrow> real" where
  "kin_z k = (case k of (x, y, z, s, h) \<Rightarrow> z)"

definition position :: "kin \<Rightarrow> vec2" where
  "position k = (case k of (x, y, z, s, h) \<Rightarrow> (x, y))"

definition velocity :: "kin \<Rightarrow> vec2" where
  "velocity k = (case k of (x, y, z, s, h) \<Rightarrow> (s * sin (radians h), s * cos (radians h)))"

definition vsub :: "vec2 \<Rightarrow> vec2 \<Rightarrow> vec2" where
  "vsub u v = (fst u - fst v, snd u - snd v)"

definition dot :: "vec2 \<Rightarrow> vec2 \<Rightarrow> real" where
  "dot u v = fst u * fst v + snd u * snd v"

definition vnorm :: "vec2 \<Rightarrow> real" where
  "vnorm u = sqrt (dot u u)"

definition rel_pos :: "kin \<Rightarrow> kin \<Rightarrow> vec2" where
  "rel_pos a b = vsub (position b) (position a)"

definition rel_vel :: "kin \<Rightarrow> kin \<Rightarrow> vec2" where
  "rel_vel a b = vsub (velocity b) (velocity a)"

definition separation_at :: "kin \<Rightarrow> kin \<Rightarrow> real \<Rightarrow> real" where
  "separation_at a b t =
     vnorm (fst (rel_pos a b) + t * fst (rel_vel a b), snd (rel_pos a b) + t * snd (rel_vel a b))"

definition spec_tcpa :: "kin \<Rightarrow> kin \<Rightarrow> real" where
  "spec_tcpa a b = - dot (rel_pos a b) (rel_vel a b) / dot (rel_vel a b) (rel_vel a b)"

text \<open>The vectors \<^verbatim>\<open>_calculate_cpa\<close> reads for agent A and agent B.\<close>

definition state_A :: "ConflictResolver \<Rightarrow> ConflictState \<Rightarrow> kin" where
  "state_A rs state = get_aircraft_data state (ac_callsign (res_A rs))"

definition state_B :: "ConflictResolver \<Rightarrow> ConflictState \<Rightarrow> kin" where
  "state_B rs state = get_aircraft_data state (ac_callsign (res_B rs))"

subsection \<open>The roster of the main program\<close>

definition plane_a :: Aircraft where
  "plane_a = Aircraft_init ''AAL123'' (-20) 0 30000 450 90"

definition plane_b :: Aircraft where
  "plane_b = Aircraft_init ''UAL456'' 20 0 30000 450 270"

definition plane_c :: Aircraft where
  "plane_c = Aircraft_init ''SWA789'' (-10) (-20) 35000 500 45"

definition plane_d :: Aircraft where
  "plane_d = Aircraft_init ''DAL001'' 10 (-20) 34000 500 135"

text \<open>The resolvers for the pairs (a, b) and (c, d), with the five-minute lookahead.\<close>

definition resolver_ab :: ConflictResolver where
  "resolver_ab = ConflictResolver_init (plane_a, plane_b) (5 / 60)"

definition resolver_cd :: ConflictResolver where
  "resolver_cd = ConflictResolver_init (plane_c, plane_d) (5 / 60)"

subsection \<open>Loop states of the search\<close>

text \<open>
  \<open>search_reach hf rs st n\<close>: the loop of \<open>a_star_search\<close> evaluates its condition with
  variables \<open>st\<close> after \<open>n\<close> pops.
\<close>

inductive search_reach :: "(fingerprint \<Rightarrow> int) \<Rightarrow> ConflictResolver \<Rightarrow> search_state \<Rightarrow> nat \<Rightarrow> bool"
  for hf :: "fingerprint \<Rightarrow> int" and rs :: ConflictResolver where
  start: "search_reach hf rs (init_search_state hf rs) 0"
| iterate: "search_reach hf rs st n \<Longrightarrow> open_list st \<noteq> [] \<Longrightarrow> n < max_search_nodes \<Longrightarrow>
     astar_step hf rs st = Inr st' \<Longrightarrow> search_reach hf rs st' (n + 1)"

text \<open>A node has the keys of the root's dictionary, in the same order.\<close>

definition keys_ok :: "ConflictResolver \<Rightarrow> ConflictState \<Rightarrow> bool" where
  "keys_ok rs node \<longleftrightarrow> map fst (aircraft_states node) = map fst (initial_aircraft_data rs)"

text \<open>A node has the planar positions of the root, for both agents.\<close>

definition same_xy :: "ConflictResolver \<Rightarrow> ConflictState \<Rightarrow> bool" where
  "same_xy rs node \<longleftrightarrow>
     position (state_A rs node) = position (state_A rs (initial_state rs))
     \<and> position (state_B rs node) = position (state_B rs (initial_state rs))"

text \<open>
  The rounded altitude in the first entry of a fingerprint; all recorded hashes come from
  fingerprints at or below a level; and some node of the open list is at or above every
  recorded fingerprint.
\<close>

definition fp_z :: "fingerprint \<Rightarrow> int" where
  "fp_z fp = (case fp of [] \<Rightarrow> 0 | (x, y, z, s, h) # _ \<Rightarrow> z)"

definition bounded_keys :: "(fingerprint \<Rightarrow> int) \<Rightarrow> (int \<rightharpoonup> real) \<Rightarrow> int \<Rightarrow> bool" where
  "bounded_keys hf gs M \<longleftrightarrow> (\<forall>k \<in> dom gs. \<exists>fp. k = hf fp \<and> fp_z fp \<le> M)"

definition top_in_open :: "(fingerprint \<Rightarrow> int) \<Rightarrow> search_state \<Rightarrow> bool" where
  "top_in_open hf st \<longleftrightarrow>
     (\<exists>node \<in> set (open_list st). bounded_keys hf (g_scores st) (fp_z (state_tuple node)))"

text \<open>Every node of the open list has the root's keys and the root's planar positions.\<close>

definition nodes_ok :: "ConflictResolver \<Rightarrow> search_state \<Rightarrow> bool" where
  "nodes_ok rs st \<longleftrightarrow> (\<forall>node \<in> set (open_list st). keys_ok rs node \<and> same_xy rs node)"

subsection \<open>The controller\<close>

text \<open>
  \<^verbatim>\<open>class ATC_Controller\<close>. The aircraft objects of \<^verbatim>\<open>aircraft_list\<close> are modelled by value,
  one record per list position; \<^verbatim>\<open>resolved_maneuvers\<close> is a dictionary from callsigns to
  queues.
\<close>

record ATC_Controller =
  aircraft_list :: "Aircraft list"
  lookahead_time_min :: real
  lookahead_time_hrs :: real
  resolved_maneuvers :: "string \<rightharpoonup> Maneuver list"

definition ATC_Controller_init :: "real \<Rightarrow> ATC_Controller" where
  "ATC_Controller_init lookahead_min =
     \<lparr>aircraft_list = [], lookahead_time_min = lookahead_min,
      lookahead_time_hrs = lookahead_min / 60, resolved_maneuvers = Map.empty\<rparr>"

text \<open>\<^verbatim>\<open>ATC_Controller.add_aircraft\<close>: one \<^verbatim>\<open>append\<close>, nothing else.\<close>

definition add_aircraft :: "ATC_Controller \<Rightarrow> Aircraft \<Rightarrow> ATC_Controller" where
  "add_aircraft c aircraft = c\<lparr>aircraft_list := aircraft_list c @ [aircraft]\<rparr>"

text \<open>
  \<^verbatim>\<open>AddPlaneDialog.add_aircraft\<close>, the caller of \<open>add_aircraft\<close> in the dialog. The text of
  a numeric entry is represented by the result of \<^verbatim>\<open>float(...)\<close> on it: \<open>None\<close> when it
  raises \<^verbatim>\<open>ValueError\<close>. \<open>upper\<close> is \<^verbatim>\<open>str.upper\<close> on ASCII letters. The outcome names
  the message box shown.
\<close>

definition upper_char :: "char \<Rightarrow> char" where
  "upper_char c =
     (if 97 \<le> (of_char c :: nat) \<and> (of_char c :: nat) \<le> 122
      then char_of ((of_char c :: nat) - 32) else c)"

definition upper :: "string \<Rightarrow> string" where
  "upper s = map upper_char s"

datatype dialog_outcome = Callsign_Exists | Invalid_Numbers | Added

definition dialog_add_aircraft :: "ATC_Controller \<Rightarrow> string \<Rightarrow> real option \<Rightarrow> real option
    \<Rightarrow> real option \<Rightarrow> real option \<Rightarrow> real option \<Rightarrow> dialog_outcome \<times> ATC_Controller" where
  "dialog_add_aircraft c callsign_entry x_entry y_entry z_entry speed_entry heading_entry =
     (let callsign = upper callsign_entry
      in case (x_entry, y_entry, z_entry, speed_entry, heading_entry) of
           (Some x, Some y, Some z, Some speed, Some heading) \<Rightarrow>
             if \<exists>ac \<in> set (aircraft_list c). ac_callsign ac = callsign
             then (Callsign_Exists, c)
             else (Added, add_aircraft c (Aircraft_init callsign x y z speed heading))
         | _ \<Rightarrow> (Invalid_Numbers, c))"

text \<open>The tuples appended to \<^verbatim>\<open>conflicts\<close>: the time label and the resolution status.\<close>

datatype time_label = Immediate | In_minutes real

datatype resolution_status = NO_RES_ATTEMPTED | FAILED | RESOLVED nat

type_synonym conflict_report = "string \<times> string \<times> time_label \<times> real \<times> real \<times> resolution_status"

text \<open>\<^verbatim>\<open>a.conflict_alert = b.conflict_alert = True\<close> for the aircraft at positions \<open>i\<close> and \<open>j\<close>.\<close>

definition set_alerts :: "nat \<Rightarrow> nat \<Rightarrow> Aircraft list \<Rightarrow> Aircraft list" where
  "set_alerts i j acs =
     (acs[i := (acs ! i)\<lparr>ac_conflict_alert := True\<rparr>])
        [j := (acs ! j)\<lparr>ac_conflict_alert := True\<rparr>]"

text \<open>\<^verbatim>\<open>self.resolved_maneuvers.setdefault(maneuver.callsign, []).append(maneuver)\<close>, for each maneuver of the path.\<close>

definition enqueue :: "Maneuver \<Rightarrow> (string \<rightharpoonup> Maneuver list) \<Rightarrow> (string \<rightharpoonup> Maneuver list)" where
  "enqueue m rm =
     rm(mv_callsign m \<mapsto> (case rm (mv_callsign m) of None \<Rightarrow> [] | Some q \<Rightarrow> q) @ [m])"

definition enqueue_all :: "Maneuver list \<Rightarrow> (string \<rightharpoonup> Maneuver list) \<Rightarrow> (string \<rightharpoonup> Maneuver list)" where
  "enqueue_all path rm = fold enqueue path rm"

text \<open>
  The body of the inner loop of \<^verbatim>\<open>check_for_conflicts\<close> for the pair of positions
  \<open>i < j\<close>, on the controller and the list \<^verbatim>\<open>conflicts\<close> built so far. An empty path and
  \<^verbatim>\<open>None\<close> are both false in \<^verbatim>\<open>if resolution_path\<close>.
\<close>

definition process_pair :: "(fingerprint \<Rightarrow> int) \<Rightarrow> nat \<Rightarrow> nat
    \<Rightarrow> ATC_Controller \<times> conflict_report list \<Rightarrow> py_error + ATC_Controller \<times> conflict_report list" where
  "process_pair hf i j cc =
     (case cc of (c, conflicts) \<Rightarrow>
      let a = aircraft_list c ! i;
          b = aircraft_list c ! j
      in if ac_callsign a \<in> dom (resolved_maneuvers c) \<or> ac_callsign b \<in> dom (resolved_maneuvers c)
         then Inr (c, conflicts)
         else
           let vertical_sep = \<bar>ac_z a - ac_z b\<bar>
           in if vertical_sep \<ge> VERTICAL_MIN then Inr (c, conflicts)
              else
                let vax = ac_speed a * sin (radians (ac_heading a));
                    vay = ac_speed a * cos (radians (ac_heading a));
                    vbx = ac_speed b * sin (radians (ac_heading b));
                    vby = ac_speed b * cos (radians (ac_heading b));
                    vrx = vbx - vax;
                    vry = vby - vay;
                    rx = ac_x b - ac_x a;
                    ry = ac_y b - ac_y a;
                    v_rel_sq = vrx\<^sup>2 + vry\<^sup>2
                in if v_rel_sq < 1 / 1000 then
                     (let dist_current = sqrt (rx\<^sup>2 + ry\<^sup>2)
                      in if dist_current < HORIZONTAL_MIN
                         then Inr (c\<lparr>aircraft_list := set_alerts i j (aircraft_list c)\<rparr>,
                                   conflicts @ [(ac_callsign a, ac_callsign b, Immediate, dist_current,
                                                 vertical_sep, NO_RES_ATTEMPTED)])
                         else Inr (c, conflicts))
                   else
                     let tcpa = - (rx * vrx + ry * vry) / v_rel_sq
                     in if 0 \<le> tcpa \<and> tcpa \<le> lookahead_time_hrs c then
                          (let min_sep_dist = sqrt ((rx + vrx * tcpa)\<^sup>2 + (ry + vry * tcpa)\<^sup>2)
                           in if min_sep_dist < HORIZONTAL_MIN then
                                (case a_star_search hf (ConflictResolver_init (a, b) (lookahead_time_hrs c)) of
                                   Inl e \<Rightarrow> Inl e
                                 | Inr (Some (m # ms)) \<Rightarrow>
                                     Inr (c\<lparr>resolved_maneuvers := enqueue_all (m # ms) (resolved_maneuvers c)\<rparr>,
                                          conflicts @ [(ac_callsign a, ac_callsign b, In_minutes (tcpa * 60),
                                                        min_sep_dist, vertical_sep, RESOLVED (length (m # ms)))])
                                 | Inr _ \<Rightarrow>
                                     Inr (c\<lparr>aircraft_list := set_alerts i j (aircraft_list c)\<rparr>,
                                          conflicts @ [(ac_callsign a, ac_callsign b, In_minutes (tcpa * 60),
                                                        min_sep_dist, vertical_sep, FAILED)]))
                              else Inr (c, conflicts))
                        else Inr (c, conflicts))"

text \<open>The two nested \<^verbatim>\<open>for\<close> loops; an error raised in the body ends them.\<close>

fun scan_inner :: "(fingerprint \<Rightarrow> int) \<Rightarrow> nat \<Rightarrow> nat list
    \<Rightarrow> ATC_Controller \<times> conflict_report list \<Rightarrow> py_error + ATC_Controller \<times> conflict_report list" where
  "scan_inner hf i [] cc = Inr cc"
| "scan_inner hf i (j # js) cc =
     (case process_pair hf i j cc of Inl e \<Rightarrow> Inl e | Inr cc' \<Rightarrow> scan_inner hf i js cc')"

fun scan_outer :: "(fingerprint \<Rightarrow> int) \<Rightarrow> nat \<Rightarrow> nat list
    \<Rightarrow> ATC_Controller \<times> conflict_report list \<Rightarrow> py_error + ATC_Controller \<times> conflict_report list" where
  "scan_outer hf n [] cc = Inr cc"
| "scan_outer hf n (i # is) cc =
     (case scan_inner hf i [i + 1 ..< n] cc of Inl e \<Rightarrow> Inl e | Inr cc' \<Rightarrow> scan_outer hf n is cc')"

text \<open>The first statements of \<^verbatim>\<open>check_for_conflicts\<close>: flags cleared, queues cleared.\<close>

definition clear_for_scan :: "ATC_Controller \<Rightarrow> ATC_Controller" where
  "clear_for_scan c =
     c\<lparr>aircraft_list := map (\<lambda>ac. ac\<lparr>ac_conflict_alert := False\<rparr>) (aircraft_list c),
       resolved_maneuvers := Map.empty\<rparr>"

text \<open>
  \<^verbatim>\<open>ATC_Controller.check_for_conflicts\<close>: the controller afterwards and the list returned,
  or the error raised.
\<close>

definition check_for_conflicts :: "(fingerprint \<Rightarrow> int) \<Rightarrow> ATC_Controller
    \<Rightarrow> py_error + ATC_Controller \<times> conflict_report list" where
  "check_for_conflicts hf c =
     (let c0 = clear_for_scan c;
          n = length (aircraft_list c0)
      in scan_outer hf n [0 ..< n] (c0, []))"

text \<open>The reports of dispatched searches, and the callsigns a report names.\<close>

definition dispatched :: "conflict_report \<Rightarrow> bool" where
  "dispatched r = (case r of (a, b, t, d, v, status) \<Rightarrow> status \<noteq> NO_RES_ATTEMPTED)"

definition report_callsigns :: "conflict_report \<Rightarrow> string set" where
  "report_callsigns r = (case r of (a, b, t, d, v, status) \<Rightarrow> {a, b})"

text \<open>
  A controller with the head-on pair of the main program and a third aircraft behind the
  first one on the same track, and one with a queue left over from an earlier tick.
\<close>

definition plane_e :: Aircraft where
  "plane_e = Aircraft_init ''JBU202'' (-10) 0 30000 450 90"

definition controller_abe :: ATC_Controller where
  "controller_abe =
     add_aircraft (add_aircraft (add_aircraft (ATC_Controller_init 5) plane_a) plane_b) plane_e"

definition controller_cd_queued :: ATC_Controller where
  "controller_cd_queued =
     (add_aircraft (add_aircraft (ATC_Controller_init 5) plane_c) plane_d)
       \<lparr>resolved_maneuvers := [''SWA789'' \<mapsto> [Maneuver_init ''SWA789'' 0 1000 0]]\<rparr>"

text \<open>
  The controller \<open>controller_abe\<close> at three moments of its scan: after the clearing,
  after the pair (a, b), and at the end.
\<close>

definition scan0 :: ATC_Controller where
  "scan0 = \<lparr>aircraft_list = [plane_a, plane_b, plane_e], lookahead_time_min = 5,
            lookahead_time_hrs = 1 / 12, resolved_maneuvers = Map.empty\<rparr>"

definition scan1 :: ATC_Controller where
  "scan1 = scan0\<lparr>resolved_maneuvers := [''AAL123'' \<mapsto> [Maneuver_init ''AAL123'' 0 (-1000) 0]]\<rparr>"

definition scan2 :: ATC_Controller where
  "scan2 = scan0\<lparr>resolved_maneuvers :=
      [''AAL123'' \<mapsto> [Maneuver_init ''AAL123'' 0 (-1000) 0],
       ''UAL456'' \<mapsto> [Maneuver_init ''UAL456'' 0 (-1000) 0]]\<rparr>"

section \<open>Properties\<close>

subsection \<open>Maneuvers on floats\<close>

lemma round_half_even_int [simp]: "round_half_even (of_int n) = n"
  by (simp add: round_half_even_def)









lemma round_half_even_numeral [simp]:
  "round_half_even (numeral n) = numeral n" "round_half_even (- numeral n) = - numeral n"
  using round_half_even_int [of "numeral n"] round_half_even_int [of "- numeral n"] by simp_all






subsection \<open>Closest approach\<close>

lemma aircraft_states_with_heuristic [simp]:
  "aircraft_states (with_heuristic rs st) = aircraft_states st"
  by (simp add: with_heuristic_def Let_def)

lemma cpa_of_safe:
  "1000 \<le> \<bar>kin_z a - kin_z b\<bar> \<Longrightarrow> cpa_of L a b = (Infinity, \<bar>kin_z a - kin_z b\<bar>, 0)"
  by (cases a; cases b) (simp add: cpa_of_def kin_z_def VERTICAL_MIN_def)

lemma calculate_cpa_eq: "calculate_cpa rs state = cpa_of (lookahead_hrs rs) (state_A rs state) (state_B rs state)"
  by (simp add: calculate_cpa_def state_A_def state_B_def)

lemma roster_cd_states:
  "state_A resolver_cd (initial_state resolver_cd) = (-10, -20, 35000, 500, 45)"
  "state_B resolver_cd (initial_state resolver_cd) = (10, -20, 34000, 500, 135)"
  by (simp_all add: state_A_def state_B_def get_aircraft_data_def initial_state_def
      initial_aircraft_data_def resolver_cd_def plane_c_def plane_d_def
      ConflictResolver_init_def Aircraft_init_def kin_of_def py_mod_def)

lemma roster_ab_states:
  "state_A resolver_ab (initial_state resolver_ab) = (-20, 0, 30000, 450, 90)"
  "state_B resolver_ab (initial_state resolver_ab) = (20, 0, 30000, 450, 270)"
  by (simp_all add: state_A_def state_B_def get_aircraft_data_def initial_state_def
      initial_aircraft_data_def resolver_ab_def plane_a_def plane_b_def
      ConflictResolver_init_def Aircraft_init_def kin_of_def py_mod_def)

lemma heuristic_safe:
  assumes "1000 \<le> \<bar>kin_z (state_A rs state) - kin_z (state_B rs state)\<bar>"
  shows "heuristic rs state = 0"
  using assms
  by (simp add: heuristic_def calculate_cpa_eq cpa_of_safe hdist_ge_def VERTICAL_MIN_def)

text \<open>
  Claim C1. Whenever the vertical separation \<open>|zA - zB|\<close> of the two vectors of a state is
  at least 1000, \<open>calculate_cpa\<close> returns infinite horizontal separation, that vertical
  separation and time zero, whatever the positions, speeds and headings are, and the
  heuristic rates the state as safe (zero).
\<close>

theorem calculate_cpa_vertically_safe:
  assumes "1000 \<le> \<bar>kin_z (state_A rs state) - kin_z (state_B rs state)\<bar>"
  shows "calculate_cpa rs state
           = (Infinity, \<bar>kin_z (state_A rs state) - kin_z (state_B rs state)\<bar>, 0)
         \<and> heuristic rs state = 0"
proof -
  have c: "calculate_cpa rs state
             = (Infinity, \<bar>kin_z (state_A rs state) - kin_z (state_B rs state)\<bar>, 0)"
    using assms by (simp add: calculate_cpa_eq cpa_of_safe)
  from c heuristic_safe [OF assms] show ?thesis by simp
qed

theorem calculate_cpa_vertically_safe_witness:
  "1000 \<le> \<bar>kin_z (state_A resolver_cd (initial_state resolver_cd))
            - kin_z (state_B resolver_cd (initial_state resolver_cd))\<bar>
   \<and> calculate_cpa resolver_cd (initial_state resolver_cd) = (Infinity, 1000, 0)
   \<and> heuristic resolver_cd (initial_state resolver_cd) = 0"
proof -
  have h: "1000 \<le> \<bar>kin_z (state_A resolver_cd (initial_state resolver_cd))
            - kin_z (state_B resolver_cd (initial_state resolver_cd))\<bar>"
    by (simp add: roster_cd_states kin_z_def)
  show ?thesis
    using h calculate_cpa_vertically_safe [OF h] by (simp add: roster_cd_states kin_z_def)
qed

text \<open>
  Claim C2. When the pair is not vertically safe, \<open>calculate_cpa\<close> follows the case
  analysis: with squared relative speed below 0.001 it returns the current horizontal
  separation, the vertical separation and half the lookahead. Otherwise the time of
  closest approach is \<open>- (relPos \<cdot> relVel) / |relVel|\<^sup>2\<close> (returned clipped at zero); the
  minimum is the current separation when that time is negative and the separation at that
  time otherwise; and when that time exceeds the lookahead, the separation at the lookahead
  is evaluated as well and the smaller of the two is returned.
\<close>

theorem calculate_cpa_case_analysis:
  assumes "\<not> 1000 \<le> \<bar>kin_z (state_A rs state) - kin_z (state_B rs state)\<bar>"
  shows "(dot (rel_vel (state_A rs state) (state_B rs state))
              (rel_vel (state_A rs state) (state_B rs state)) < 1 / 1000 \<longrightarrow>
            calculate_cpa rs state
              = (Finite (vnorm (rel_pos (state_A rs state) (state_B rs state))),
                 \<bar>kin_z (state_A rs state) - kin_z (state_B rs state)\<bar>,
                 lookahead_hrs rs / 2))
       \<and> (\<not> dot (rel_vel (state_A rs state) (state_B rs state))
                (rel_vel (state_A rs state) (state_B rs state)) < 1 / 1000 \<longrightarrow>
            fst (snd (calculate_cpa rs state))
              = \<bar>kin_z (state_A rs state) - kin_z (state_B rs state)\<bar>
          \<and> snd (snd (calculate_cpa rs state))
              = max 0 (spec_tcpa (state_A rs state) (state_B rs state))
          \<and> (spec_tcpa (state_A rs state) (state_B rs state) < 0
              \<and> \<not> lookahead_hrs rs < spec_tcpa (state_A rs state) (state_B rs state) \<longrightarrow>
                fst (calculate_cpa rs state)
                  = Finite (vnorm (rel_pos (state_A rs state) (state_B rs state))))
          \<and> (\<not> spec_tcpa (state_A rs state) (state_B rs state) < 0
              \<and> \<not> lookahead_hrs rs < spec_tcpa (state_A rs state) (state_B rs state) \<longrightarrow>
                fst (calculate_cpa rs state)
                  = Finite (separation_at (state_A rs state) (state_B rs state)
                              (spec_tcpa (state_A rs state) (state_B rs state))))
          \<and> (lookahead_hrs rs < spec_tcpa (state_A rs state) (state_B rs state) \<longrightarrow>
                fst (calculate_cpa rs state)
                  = Finite (min (if spec_tcpa (state_A rs state) (state_B rs state) < 0
                                 then vnorm (rel_pos (state_A rs state) (state_B rs state))
                                 else separation_at (state_A rs state) (state_B rs state)
                                        (spec_tcpa (state_A rs state) (state_B rs state)))
                                (separation_at (state_A rs state) (state_B rs state)
                                   (lookahead_hrs rs)))))"
proof -
  obtain ax ay az aspd ahead where a: "state_A rs state = (ax, ay, az, aspd, ahead)"
    by (cases "state_A rs state")
  obtain bx "by" bz bspd bhead where b: "state_B rs state = (bx, by, bz, bspd, bhead)"
    by (cases "state_B rs state")
  from assms have v: "\<not> VERTICAL_MIN \<le> \<bar>az - bz\<bar>"
    by (simp add: a b kin_z_def VERTICAL_MIN_def)
  show ?thesis
    using v unfolding calculate_cpa_eq a b cpa_of_def
    by (simp add: Let_def kin_z_def spec_tcpa_def separation_at_def vnorm_def dot_def rel_pos_def
        rel_vel_def vsub_def position_def velocity_def power2_eq_square mult.commute)
qed

theorem calculate_cpa_case_analysis_witness:
  "\<not> 1000 \<le> \<bar>kin_z (state_A resolver_ab (initial_state resolver_ab))
              - kin_z (state_B resolver_ab (initial_state resolver_ab))\<bar>
   \<and> \<not> dot (rel_vel (state_A resolver_ab (initial_state resolver_ab))
                     (state_B resolver_ab (initial_state resolver_ab)))
            (rel_vel (state_A resolver_ab (initial_state resolver_ab))
                     (state_B resolver_ab (initial_state resolver_ab))) < 1 / 1000
   \<and> spec_tcpa (state_A resolver_ab (initial_state resolver_ab))
               (state_B resolver_ab (initial_state resolver_ab)) = 2 / 45
   \<and> calculate_cpa resolver_ab (initial_state resolver_ab) = (Finite 0, 0, 2 / 45)"
proof -
  have h: "\<not> 1000 \<le> \<bar>kin_z (state_A resolver_ab (initial_state resolver_ab))
              - kin_z (state_B resolver_ab (initial_state resolver_ab))\<bar>"
    by (simp add: roster_ab_states kin_z_def)
  have trig: "sin (radians 90) = 1" "cos (radians 90) = 0"
    "sin (radians 270) = - 1" "cos (radians 270) = 0"
    using sin_3over2_pi cos_3over2_pi by (simp_all add: radians_def)
  have rv: "rel_vel (-20, 0, 30000, 450, 90) (20, 0, 30000, 450, 270) = (- 900, 0)"
    by (simp add: rel_vel_def vsub_def velocity_def trig)
  have rp: "rel_pos (-20, 0, 30000, 450, 90) (20, 0, 30000, 450, 270) = (40, 0)"
    by (simp add: rel_pos_def vsub_def position_def)
  have t: "spec_tcpa (-20, 0, 30000, 450, 90) (20, 0, 30000, 450, 270) = 2 / 45"
    by (simp add: spec_tcpa_def rv rp dot_def)
  have s: "separation_at (-20, 0, 30000, 450, 90) (20, 0, 30000, 450, 270) (2 / 45) = 0"
    by (simp add: separation_at_def rv rp vnorm_def dot_def)
  have l: "lookahead_hrs resolver_ab = 1 / 12"
    by (simp add: resolver_ab_def ConflictResolver_init_def)
  have "calculate_cpa resolver_ab (initial_state resolver_ab) = (Finite 0, 0, 2 / 45)"
    using calculate_cpa_case_analysis [OF h]
    by (simp add: roster_ab_states t s l rv dot_def kin_z_def prod_eq_iff)
  then show ?thesis
    using h by (simp add: roster_ab_states t rv dot_def)
qed

text \<open>
  Claim C9. Swapping which aircraft of the resolver plays agent A and which plays agent B
  leaves the result of \<open>calculate_cpa\<close> on any state unchanged.
\<close>

theorem calculate_cpa_order_independent:
  "calculate_cpa (rs\<lparr>res_A := res_B rs, res_B := res_A rs\<rparr>) state = calculate_cpa rs state"
proof -
  obtain ax ay az aspd ahead where a: "state_A rs state = (ax, ay, az, aspd, ahead)"
    by (cases "state_A rs state")
  obtain bx "by" bz bspd bhead where b: "state_B rs state = (bx, by, bz, bspd, bhead)"
    by (cases "state_B rs state")
  define vrx where "vrx = bspd * sin (radians bhead) - aspd * sin (radians ahead)"
  define vry where "vry = bspd * cos (radians bhead) - aspd * cos (radians ahead)"
  define rx where "rx = bx - ax"
  define ry where "ry = by - ay"
  have n: "aspd * sin (radians ahead) - bspd * sin (radians bhead) = - vrx"
    "aspd * cos (radians ahead) - bspd * cos (radians bhead) = - vry"
    "ax - bx = - rx" "ay - by = - ry"
    by (simp_all add: vrx_def vry_def rx_def ry_def)
  have m: "(- p - u)\<^sup>2 = (p + u)\<^sup>2" for p u :: real
    by (simp add: power2_eq_square algebra_simps)
  have sw: "calculate_cpa (rs\<lparr>res_A := res_B rs, res_B := res_A rs\<rparr>) state
              = cpa_of (lookahead_hrs rs) (state_B rs state) (state_A rs state)"
    by (simp add: calculate_cpa_def state_A_def state_B_def)
  have "cpa_of (lookahead_hrs rs) (state_B rs state) (state_A rs state)
          = cpa_of (lookahead_hrs rs) (state_A rs state) (state_B rs state)"
    unfolding a b cpa_of_def prod.case Let_def n
    unfolding vrx_def [symmetric] vry_def [symmetric] rx_def [symmetric] ry_def [symmetric]
    by (simp add: abs_minus_commute m)
  then show ?thesis
    unfolding sw by (simp add: calculate_cpa_def state_A_def state_B_def)
qed


subsection \<open>The priority queue keeps its items\<close>

lemma mset_move_hole:
  assumes "i < length xs" "j < length xs" "i \<noteq> j"
  shows "mset (xs[i := xs ! j, j := v]) = mset (xs[i := v])"
proof -
  let ?ys = "xs[i := v]"
  have "mset (?ys[j := ?ys ! i, i := ?ys ! j]) = mset ?ys"
    using assms by (intro mset_swap) simp_all
  moreover have "?ys[j := ?ys ! i, i := ?ys ! j] = xs[i := xs ! j, j := v]"
    using assms by (simp add: list_update_swap [of i j])
  ultimately show ?thesis by simp
qed

lemma siftdown_loop_mset:
  "pos < length heap \<Longrightarrow>
   mset (siftdown_loop lt heap startpos pos item) = mset (heap[pos := item])"
proof (induction lt heap startpos pos item rule: siftdown_loop.induct)
  case (1 lt heap startpos pos newitem)
  show ?case
  proof (cases "startpos < pos \<and> lt newitem (heap ! ((pos - 1) div 2))")
    case True
    let ?pp = "(pos - 1) div 2"
    from True "1.prems" have pp: "?pp < pos" "?pp < length heap" by auto
    have "mset (siftdown_loop lt (heap[pos := heap ! ?pp]) startpos ?pp newitem)
            = mset (heap[pos := heap ! ?pp, ?pp := newitem])"
      using True pp by (intro "1.IH") simp_all
    also have "\<dots> = mset (heap[pos := newitem])"
      using pp "1.prems" by (intro mset_move_hole) simp_all
    finally show ?thesis
      using True by (subst siftdown_loop.simps) (simp add: Let_def)
  next
    case False
    then show ?thesis
      by (subst siftdown_loop.simps) (auto simp: Let_def)
  qed
qed

lemma siftdown_mset: "pos < length heap \<Longrightarrow> mset (siftdown lt heap startpos pos) = mset heap"
  by (simp add: siftdown_def siftdown_loop_mset)

lemma siftup_loop_mset:
  "siftup_loop lt heap pos endpos = (h', p') \<Longrightarrow> pos < length heap \<Longrightarrow> endpos \<le> length heap \<Longrightarrow>
   p' < length h' \<and> mset (h'[p' := item]) = mset (heap[pos := item])"
proof (induction lt heap pos endpos arbitrary: h' p' rule: siftup_loop.induct)
  case (1 lt heap pos endpos)
  show ?case
  proof (cases "2 * pos + 1 < endpos")
    case True
    define c where "c = (if 2 * pos + 1 + 1 < endpos \<and> \<not> lt (heap ! (2 * pos + 1)) (heap ! (2 * pos + 1 + 1))
                         then 2 * pos + 1 + 1 else 2 * pos + 1)"
    have c: "pos < c" "c < endpos" using True by (auto simp: c_def)
    have rec: "siftup_loop lt (heap[pos := heap ! c]) c endpos = (h', p')"
      using "1.prems"(1) True unfolding c_def
      by (subst (asm) siftup_loop.simps) (auto simp: Let_def split: if_splits)
    have "p' < length h' \<and> mset (h'[p' := item]) = mset (heap[pos := heap ! c, c := item])"
      using c "1.prems" "1.IH" [OF refl True refl refl, folded c_def, OF rec] by simp
    moreover have "mset (heap[pos := heap ! c, c := item]) = mset (heap[pos := item])"
      using c "1.prems" by (intro mset_move_hole) simp_all
    ultimately show ?thesis by simp
  next
    case False
    then have "h' = heap" "p' = pos"
      using "1.prems"(1) by (subst (asm) siftup_loop.simps; simp add: Let_def)+
    then show ?thesis using "1.prems" by simp
  qed
qed

lemma siftup_mset: "pos < length heap \<Longrightarrow> mset (siftup lt heap pos) = mset heap"
proof -
  assume p: "pos < length heap"
  obtain h' p' where l: "siftup_loop lt heap pos (length heap) = (h', p')"
    by (cases "siftup_loop lt heap pos (length heap)")
  from siftup_loop_mset [OF l p, of "heap ! pos"]
  have "p' < length h'" "mset (h'[p' := heap ! pos]) = mset heap" by simp_all
  then show ?thesis
    by (simp add: siftup_def l siftdown_mset)
qed

lemma heappush_mset: "mset (heappush lt heap item) = add_mset item (mset heap)"
  by (simp add: heappush_def siftdown_mset)

lemma heappop_mset:
  "heappop lt heap = Some (x, rest) \<Longrightarrow> mset heap = add_mset x (mset rest)"
proof -
  assume a: "heappop lt heap = Some (x, rest)"
  then have ne: "heap \<noteq> []" by (auto simp: heappop_def split: if_splits)
  then have sn: "heap = butlast heap @ [last heap]" by simp
  show ?thesis
  proof (cases "butlast heap = []")
    case True
    with a ne sn show ?thesis
      by (auto simp: heappop_def Let_def)
  next
    case False
    then have l: "0 < length (butlast heap)" by (metis length_greater_0_conv)
    from a ne False have x: "x = butlast heap ! 0"
      and r: "rest = siftup lt ((butlast heap)[0 := last heap]) 0"
      by (simp_all add: heappop_def Let_def)
    have "mset rest = mset ((butlast heap)[0 := last heap])"
      unfolding r using l by (intro siftup_mset) simp
    then have "add_mset x (mset rest) = add_mset (last heap) (mset (butlast heap))"
      using l x by (simp add: mset_update)
    also have "\<dots> = mset (butlast heap @ [last heap])" by simp
    finally show ?thesis using sn by simp
  qed
qed

lemma heappop_nonempty: "heap \<noteq> [] \<Longrightarrow> \<exists>x rest. heappop lt heap = Some (x, rest)"
  by (simp add: heappop_def Let_def)

subsection \<open>Nodes of the search\<close>

lemma initial_keys:
  "map fst (initial_aircraft_data rs) =
     (if ac_callsign (res_A rs) = ac_callsign (res_B rs) then [ac_callsign (res_A rs)]
      else [ac_callsign (res_A rs), ac_callsign (res_B rs)])"
  by (simp add: initial_aircraft_data_def)

lemma keys_ok_initial: "keys_ok rs (initial_state rs)"
  by (simp add: keys_ok_def initial_state_def)

lemma keys_ok_lookup:
  assumes "keys_ok rs node" "cs = ac_callsign (res_A rs) \<or> cs = ac_callsign (res_B rs)"
  shows "\<exists>v. map_of (aircraft_states node) cs = Some v"
proof -
  have "cs \<in> set (map fst (aircraft_states node))"
    using assms by (auto simp: keys_ok_def initial_keys)
  then have "cs \<in> dom (map_of (aircraft_states node))"
    by (simp add: dom_map_of_conv_image_fst)
  then show ?thesis by auto
qed

lemma options_callsigns:
  "m \<in> set (MANEUVER_OPTIONS rs) \<Longrightarrow>
   mv_callsign m = ac_callsign (res_A rs) \<or> mv_callsign m = ac_callsign (res_B rs)"
  by (auto simp: MANEUVER_OPTIONS_def Maneuver_init_def)

lemma successor_states:
  assumes "successor rs cur m = Inr s"
  shows "\<exists>x y z sp hd. map_of (aircraft_states cur) (mv_callsign m) = Some (x, y, z, sp, hd)
     \<and> aircraft_states s =
         AList.update (mv_callsign m)
           (x, y, max 5000 (z + altitude_change m), max 200 (sp + speed_change m),
            py_mod (py_mod hd 360 + heading_change m) 360)
           (aircraft_states cur)
     \<and> g_cost s = g_cost cur + cost m \<and> link s = Some (cur, m)"
  using assms
  by (auto simp: successor_def Let_def with_heuristic_def kin_of_def apply_maneuver_def
      Aircraft_init_def split: option.splits)

lemma successor_defined:
  assumes "keys_ok rs cur" "mv_callsign m = ac_callsign (res_A rs) \<or> mv_callsign m = ac_callsign (res_B rs)"
  shows "\<exists>s. successor rs cur m = Inr s"
proof -
  from keys_ok_lookup [OF assms(1), of "mv_callsign m"] assms(2)
  obtain v where "map_of (aircraft_states cur) (mv_callsign m) = Some v" by auto
  then show ?thesis
    by (cases v) (simp add: successor_def Let_def)
qed

lemma successor_keys_ok:
  assumes "successor rs cur m = Inr s" "keys_ok rs cur"
  shows "keys_ok rs s"
proof -
  from successor_states [OF assms(1)] obtain v w where
    l: "map_of (aircraft_states cur) (mv_callsign m) = Some v"
    and u: "aircraft_states s = AList.update (mv_callsign m) w (aircraft_states cur)"
    by blast
  from l have "mv_callsign m \<in> set (map fst (aircraft_states cur))"
    by (metis domI dom_map_of_conv_image_fst set_map)
  then have "map fst (aircraft_states s) = map fst (aircraft_states cur)"
    unfolding u update_keys by (simp only: if_True)
  then show ?thesis
    using assms(2) by (simp add: keys_ok_def)
qed

lemma successor_position:
  assumes "successor rs cur m = Inr s"
  shows "position (get_aircraft_data s cs) = position (get_aircraft_data cur cs)"
proof -
  from successor_states [OF assms] obtain x y z sp hd w3 w4 w5 where
    l: "map_of (aircraft_states cur) (mv_callsign m) = Some (x, y, z, sp, hd)"
    and u: "aircraft_states s = AList.update (mv_callsign m) (x, y, w3, w4, w5) (aircraft_states cur)"
    by blast
  show ?thesis
    by (simp add: get_aircraft_data_def u update_conv' l position_def)
qed

lemma successor_same_xy:
  "successor rs cur m = Inr s \<Longrightarrow> same_xy rs cur \<Longrightarrow> same_xy rs s"
  by (simp add: same_xy_def state_A_def state_B_def successor_position)

lemma set_heappush: "set (heappush lt heap item) = insert item (set heap)"
  using heappush_mset [of lt heap item] by (metis set_mset_add_mset_insert set_mset_mset)

lemma set_heappop: "heappop lt heap = Some (x, rest) \<Longrightarrow> set heap = insert x (set rest)"
  using heappop_mset [of lt heap x rest] by (metis set_mset_add_mset_insert set_mset_mset)

lemma push_successor_open:
  "set (open_list (push_successor hf s st)) \<subseteq> insert s (set (open_list st))"
  by (auto simp: push_successor_def Let_def set_heappush split: option.splits)

lemma expand_open:
  assumes "expand hf rs cur ms st = Inr st'" "node \<in> set (open_list st')"
  shows "node \<in> set (open_list st) \<or> (\<exists>m \<in> set ms. successor rs cur m = Inr node)"
  using assms
proof (induction ms arbitrary: st)
  case Nil
  then show ?case by simp
next
  case (Cons m ms)
  from Cons.prems(1) obtain s where s: "successor rs cur m = Inr s"
    and e: "expand hf rs cur ms (push_successor hf s st) = Inr st'"
    by (auto split: sum.splits)
  from Cons.IH [OF e Cons.prems(2)] push_successor_open [of hf s st] s
  show ?case by auto
qed

lemma expand_defined:
  assumes "keys_ok rs cur" "set ms \<subseteq> set (MANEUVER_OPTIONS rs)"
  shows "\<exists>st'. expand hf rs cur ms st = Inr st'"
  using assms(2)
proof (induction ms arbitrary: st)
  case Nil
  then show ?case by simp
next
  case (Cons m ms)
  then have "m \<in> set (MANEUVER_OPTIONS rs)" by simp
  from successor_defined [OF assms(1) options_callsigns [OF this]]
  obtain s where "successor rs cur m = Inr s" by blast
  with Cons show ?case by simp
qed


lemma nodes_ok_init: "nodes_ok rs (init_search_state hf rs)"
  by (simp add: nodes_ok_def init_search_state_def keys_ok_initial same_xy_def)

lemma astar_step_nodes_ok:
  assumes "astar_step hf rs st = Inr st'" "nodes_ok rs st"
  shows "nodes_ok rs st'"
proof -
  from assms(1) obtain cur rest where
    p: "heappop cs_lt (open_list st) = Some (cur, rest)"
    and e: "expand hf rs cur (MANEUVER_OPTIONS rs) (st\<lparr>open_list := rest\<rparr>) = Inr st'"
    by (auto simp: astar_step_def split: option.splits if_splits sum.splits)
  from set_heappop [OF p] have sub: "set (open_list st) = insert cur (set rest)" .
  have c: "keys_ok rs cur" "same_xy rs cur"
    using assms(2) sub by (auto simp: nodes_ok_def)
  show ?thesis
    unfolding nodes_ok_def
  proof
    fix node assume "node \<in> set (open_list st')"
    from expand_open [OF e this]
    show "keys_ok rs node \<and> same_xy rs node"
      using assms(2) sub c successor_keys_ok successor_same_xy
      by (auto simp: nodes_ok_def)
  qed
qed

lemma search_reach_nodes_ok: "search_reach hf rs st n \<Longrightarrow> nodes_ok rs st"
  by (induction rule: search_reach.induct) (auto intro: nodes_ok_init astar_step_nodes_ok)

lemma astar_step_no_raise:
  assumes "nodes_ok rs st" "open_list st \<noteq> []"
  shows "astar_step hf rs st \<noteq> Inl (Inl e)"
proof -
  from heappop_nonempty [OF assms(2)] obtain cur rest where
    p: "heappop cs_lt (open_list st) = Some (cur, rest)" by blast
  from set_heappop [OF p] assms(1) have "keys_ok rs cur" by (simp add: nodes_ok_def)
  from expand_defined [OF this subset_refl]
  obtain st' where "expand hf rs cur (MANEUVER_OPTIONS rs) (st\<lparr>open_list := rest\<rparr>) = Inr st'"
    by blast
  then show ?thesis
    by (simp add: astar_step_def p)
qed

subsection \<open>Termination, budget and positions\<close>

lemma astar_loop_result:
  "nodes_ok rs st \<Longrightarrow> n \<le> max_search_nodes \<Longrightarrow>
   \<exists>r st' k. astar_loop hf rs st n = (Inr r, st', k) \<and> n \<le> k \<and> k \<le> max_search_nodes"
proof (induction hf rs st n rule: astar_loop.induct)
  case (1 hf rs st n)
  show ?case
  proof (cases "open_list st \<noteq> [] \<and> n < max_search_nodes")
    case False
    then show ?thesis
      using "1.prems" by (subst astar_loop.simps) auto
  next
    case True
    show ?thesis
    proof (cases "astar_step hf rs st")
      case (Inl res)
      then obtain path where "res = Inr path"
        using astar_step_no_raise [OF "1.prems"(1), of hf] True by (cases res) auto
      with Inl True show ?thesis
        by (subst astar_loop.simps) simp
    next
      case (Inr st')
      from astar_step_nodes_ok [OF Inr "1.prems"(1)] have ok: "nodes_ok rs st'" .
      from "1.IH" [OF True Inr ok] True
      obtain r st'' k where "astar_loop hf rs st' (n + 1) = (Inr r, st'', k)"
        "n + 1 \<le> k" "k \<le> max_search_nodes"
        by auto
      with Inr True show ?thesis
        by (subst astar_loop.simps) simp
    qed
  qed
qed

text \<open>
  Claim C3. For every starting pair (and every hash function) \<open>a_star_search\<close> returns: it
  raises no error and yields a path or \<open>None\<close>, after at most 1000 pops from the open list;
  and whenever the loop condition is evaluated with the budget of 1000 pops used up, the
  search returns \<open>None\<close> at once, whatever is left in the open list.
\<close>

theorem a_star_search_bounded:
  "(\<exists>r. a_star_search hf rs = Inr r) \<and> pops hf rs \<le> 1000
   \<and> (\<forall>st n. 1000 \<le> n \<longrightarrow> astar_loop hf rs st n = (Inr None, st, n))"
proof -
  from astar_loop_result [where st = "init_search_state hf rs" and n = 0 and hf = hf and rs = rs,
      OF nodes_ok_init]
  obtain r st' k where "astar_run hf rs = (Inr r, st', k)" "k \<le> max_search_nodes"
    by (auto simp: astar_run_def)
  then have "(\<exists>r. a_star_search hf rs = Inr r) \<and> pops hf rs \<le> 1000"
    by (simp add: a_star_search_def pops_def max_search_nodes_def)
  moreover have "astar_loop hf rs st n = (Inr None, st, n)" if "1000 \<le> n" for st n
    using that by (subst astar_loop.simps) (simp add: max_search_nodes_def)
  ultimately show ?thesis by blast
qed

theorem a_star_search_bounded_witness:
  "(1000 :: nat) \<le> 1000
   \<and> astar_loop ideal_hash resolver_ab (init_search_state ideal_hash resolver_ab) 1000
       = (Inr None, init_search_state ideal_hash resolver_ab, 1000)
   \<and> pops ideal_hash resolver_ab \<le> 1000"
  using a_star_search_bounded [of ideal_hash resolver_ab] by simp

text \<open>
  Claim C10. Throughout one search, every node of the open list has, for both agents, the
  planar position \<open>(x, y)\<close> of the root state, and so has every successor generated from
  such a node (pushed or suppressed); \<open>apply_maneuver\<close> itself never changes \<open>x\<close> or \<open>y\<close>.
\<close>

theorem search_positions_fixed:
  assumes "search_reach hf rs st n" "node \<in> set (open_list st)"
  shows "position (state_A rs node) = position (state_A rs (initial_state rs))
       \<and> position (state_B rs node) = position (state_B rs (initial_state rs))
       \<and> (\<forall>m s. successor rs node m = Inr s \<longrightarrow>
             position (state_A rs s) = position (state_A rs (initial_state rs))
           \<and> position (state_B rs s) = position (state_B rs (initial_state rs)))
       \<and> ac_x (apply_maneuver ac mv) = ac_x ac \<and> ac_y (apply_maneuver ac mv) = ac_y ac"
proof -
  from search_reach_nodes_ok [OF assms(1)] assms(2) have x: "same_xy rs node"
    by (simp add: nodes_ok_def)
  then have "\<forall>m s. successor rs node m = Inr s \<longrightarrow> same_xy rs s"
    using successor_same_xy by blast
  with x show ?thesis
    by (simp add: same_xy_def apply_maneuver_def)
qed

theorem search_positions_fixed_witness:
  "search_reach ideal_hash resolver_ab (init_search_state ideal_hash resolver_ab) 0
   \<and> initial_state resolver_ab \<in> set (open_list (init_search_state ideal_hash resolver_ab))
   \<and> position (state_A resolver_ab (initial_state resolver_ab)) = (-20, 0)
   \<and> position (state_B resolver_ab (initial_state resolver_ab)) = (20, 0)
   \<and> (\<exists>s. successor resolver_ab (initial_state resolver_ab) (Maneuver_init ''AAL123'' 10 0 0) = Inr s
          \<and> position (state_A resolver_ab s) = (-20, 0)
          \<and> position (state_B resolver_ab s) = (20, 0))"
proof -
  have r: "search_reach ideal_hash resolver_ab (init_search_state ideal_hash resolver_ab) 0"
    by (rule search_reach.start)
  have m: "initial_state resolver_ab \<in> set (open_list (init_search_state ideal_hash resolver_ab))"
    by (simp add: init_search_state_def)
  have "mv_callsign (Maneuver_init ''AAL123'' 10 0 0) = ac_callsign (res_A resolver_ab)"
    by (simp add: Maneuver_init_def resolver_ab_def ConflictResolver_init_def plane_a_def
        Aircraft_init_def)
  then obtain s where
    s: "successor resolver_ab (initial_state resolver_ab) (Maneuver_init ''AAL123'' 10 0 0) = Inr s"
    using successor_defined [OF keys_ok_initial, of "Maneuver_init ''AAL123'' 10 0 0" resolver_ab]
    by blast
  from search_positions_fixed [OF r m] s
  have "position (state_A resolver_ab s) = position (state_A resolver_ab (initial_state resolver_ab))
      \<and> position (state_B resolver_ab s) = position (state_B resolver_ab (initial_state resolver_ab))"
    by blast
  with s r m show ?thesis
    by (auto simp: roster_ab_states position_def)
qed

subsection \<open>The open list in exact arithmetic\<close>

lemma py_round0_bounds: "\<lfloor>v\<rfloor> \<le> py_round0 v \<and> py_round0 v \<le> \<lfloor>v\<rfloor> + 1"
  by (simp add: py_round0_def Let_def)

lemma py_round0_mono:
  assumes "x \<le> y"
  shows "py_round0 x \<le> py_round0 y"
proof (cases "\<lfloor>x\<rfloor> = \<lfloor>y\<rfloor>")
  case True
  then have "x - of_int \<lfloor>x\<rfloor> \<le> y - of_int \<lfloor>y\<rfloor>" using assms by simp
  then show ?thesis
    using True by (auto simp: py_round0_def Let_def)
next
  case False
  have "\<lfloor>x\<rfloor> \<le> \<lfloor>y\<rfloor>" using assms by (rule floor_mono)
  with False have "\<lfloor>x\<rfloor> + 1 \<le> \<lfloor>y\<rfloor>" by simp
  then show ?thesis
    using py_round0_bounds [of x] py_round0_bounds [of y] by linarith
qed

lemma py_round0_plus_1000: "py_round0 (v + 1000) = py_round0 v + 1000"
proof -
  have f: "\<lfloor>v + 1000\<rfloor> = \<lfloor>v\<rfloor> + 1000"
    using floor_add_int [of v 1000] by simp
  show ?thesis
    unfolding py_round0_def f Let_def by simp
qed

lemma keys_ok_head:
  assumes "keys_ok rs node"
  shows "\<exists>v rest. aircraft_states node = (ac_callsign (res_A rs), v) # rest"
proof -
  from assms have "map fst (aircraft_states node) = ac_callsign (res_A rs) # tl (map fst (initial_aircraft_data rs))"
    by (simp add: keys_ok_def initial_keys)
  then show ?thesis
    by (cases "aircraft_states node") auto
qed

lemma fp_z_node:
  assumes "keys_ok rs node"
  shows "fp_z (state_tuple node) = py_round0 (kin_z (state_A rs node))"
proof -
  from keys_ok_head [OF assms] obtain v rest where
    a: "aircraft_states node = (ac_callsign (res_A rs), v) # rest" by blast
  show ?thesis
    by (cases v) (simp add: fp_z_def state_tuple_def a state_A_def get_aircraft_data_def kin_z_def)
qed

lemma successor_A_up:
  assumes "successor rs cur (Maneuver_init (ac_callsign (res_A rs)) 0 1000 0) = Inr s"
  shows "kin_z (state_A rs s) = max 5000 (kin_z (state_A rs cur) + 1000)"
proof -
  from successor_states [OF assms] obtain x y z sp hd w4 w5 where
    l: "map_of (aircraft_states cur) (ac_callsign (res_A rs)) = Some (x, y, z, sp, hd)"
    and u: "aircraft_states s =
      AList.update (ac_callsign (res_A rs)) (x, y, max 5000 (z + 1000), w4, w5) (aircraft_states cur)"
    by (auto simp: Maneuver_init_def)
  show ?thesis
    by (simp add: state_A_def get_aircraft_data_def u update_conv' l kin_z_def)
qed

lemma successor_A_up_fp:
  assumes "successor rs cur (Maneuver_init (ac_callsign (res_A rs)) 0 1000 0) = Inr s" "keys_ok rs cur"
  shows "fp_z (state_tuple cur) < fp_z (state_tuple s)"
proof -
  have ks: "keys_ok rs s" using successor_keys_ok [OF assms] .
  let ?z = "kin_z (state_A rs cur)"
  have "py_round0 ?z + 1000 = py_round0 (?z + 1000)" by (simp add: py_round0_plus_1000)
  also have "\<dots> \<le> py_round0 (max 5000 (?z + 1000))" by (rule py_round0_mono) simp
  finally show ?thesis
    by (simp add: fp_z_node [OF ks] fp_z_node [OF assms(2)] successor_A_up [OF assms(1)])
qed

lemma A_up_in_options:
  "Maneuver_init (ac_callsign (res_A rs)) 0 1000 0 \<in> set (MANEUVER_OPTIONS rs)"
  by (simp add: MANEUVER_OPTIONS_def)

lemma bounded_keys_mono: "bounded_keys hf gs M \<Longrightarrow> M \<le> M' \<Longrightarrow> bounded_keys hf gs M'"
  unfolding bounded_keys_def by (meson order_trans)

lemma bounded_keys_upd:
  "bounded_keys hf gs M \<Longrightarrow> fp_z fp \<le> M \<Longrightarrow> bounded_keys hf (gs(hf fp \<mapsto> g)) M"
  unfolding bounded_keys_def by auto

lemma push_successor_cases:
  "push_successor hf s st = st
   \<or> (open_list (push_successor hf s st) = heappush cs_lt (open_list st) s
      \<and> g_scores (push_successor hf s st) = (g_scores st)(hf (state_tuple s) \<mapsto> g_cost s))"
  by (auto simp: push_successor_def Let_def cs_hash_def split: option.splits)

lemma push_successor_fresh:
  "hf (state_tuple s) \<notin> dom (g_scores st) \<Longrightarrow>
   open_list (push_successor hf s st) = heappush cs_lt (open_list st) s
   \<and> g_scores (push_successor hf s st) = (g_scores st)(hf (state_tuple s) \<mapsto> g_cost s)"
  by (auto simp: push_successor_def Let_def cs_hash_def split: option.splits)

lemma push_keeps_top:
  assumes "top_in_open hf st"
  shows "top_in_open hf (push_successor hf s st)"
proof -
  from assms obtain node where n: "node \<in> set (open_list st)"
    and b: "bounded_keys hf (g_scores st) (fp_z (state_tuple node))"
    by (auto simp: top_in_open_def)
  from push_successor_cases [of hf s st] show ?thesis
  proof
    assume "push_successor hf s st = st"
    with assms show ?thesis by simp
  next
    assume p: "open_list (push_successor hf s st) = heappush cs_lt (open_list st) s
      \<and> g_scores (push_successor hf s st) = (g_scores st)(hf (state_tuple s) \<mapsto> g_cost s)"
    show ?thesis
    proof (cases "fp_z (state_tuple s) \<le> fp_z (state_tuple node)")
      case True
      from bounded_keys_upd [OF b True] n p show ?thesis
        by (auto simp: top_in_open_def set_heappush)
    next
      case False
      then have "bounded_keys hf (g_scores st) (fp_z (state_tuple s))"
        using bounded_keys_mono [OF b] by simp
      from bounded_keys_upd [OF this order_refl] p show ?thesis
        by (auto simp: top_in_open_def set_heappush)
    qed
  qed
qed

lemma push_below_level:
  assumes "bounded_keys hf (g_scores st) M"
  shows "bounded_keys hf (g_scores (push_successor hf s st)) M \<or> top_in_open hf (push_successor hf s st)"
proof -
  from push_successor_cases [of hf s st] show ?thesis
  proof
    assume "push_successor hf s st = st"
    with assms show ?thesis by simp
  next
    assume p: "open_list (push_successor hf s st) = heappush cs_lt (open_list st) s
      \<and> g_scores (push_successor hf s st) = (g_scores st)(hf (state_tuple s) \<mapsto> g_cost s)"
    show ?thesis
    proof (cases "fp_z (state_tuple s) \<le> M")
      case True
      from bounded_keys_upd [OF assms True] p show ?thesis by simp
    next
      case False
      then have "bounded_keys hf (g_scores st) (fp_z (state_tuple s))"
        using bounded_keys_mono [OF assms] by simp
      from bounded_keys_upd [OF this order_refl] p show ?thesis
        by (auto simp: top_in_open_def set_heappush)
    qed
  qed
qed

lemma push_above_level:
  assumes "inj hf" "bounded_keys hf (g_scores st) M" "M < fp_z (state_tuple s)"
  shows "top_in_open hf (push_successor hf s st)"
proof -
  have "hf (state_tuple s) \<notin> dom (g_scores st)"
  proof
    assume "hf (state_tuple s) \<in> dom (g_scores st)"
    with assms(2) obtain fp where "hf (state_tuple s) = hf fp" "fp_z fp \<le> M"
      by (auto simp: bounded_keys_def)
    with assms(1,3) show False by (auto dest: injD)
  qed
  from push_successor_fresh [of hf s st] this have
    p: "open_list (push_successor hf s st) = heappush cs_lt (open_list st) s"
       "g_scores (push_successor hf s st) = (g_scores st)(hf (state_tuple s) \<mapsto> g_cost s)"
    by simp_all
  have "bounded_keys hf (g_scores st) (fp_z (state_tuple s))"
    using bounded_keys_mono [OF assms(2)] assms(3) by simp
  from bounded_keys_upd [OF this order_refl] show ?thesis
    by (auto simp: top_in_open_def set_heappush p)
qed

lemma expand_keeps_top:
  "expand hf rs cur ms st = Inr st' \<Longrightarrow> top_in_open hf st \<Longrightarrow> top_in_open hf st'"
proof (induction ms arbitrary: st)
  case Nil
  then show ?case by simp
next
  case (Cons m ms)
  from Cons.prems(1) obtain s where
    e: "expand hf rs cur ms (push_successor hf s st) = Inr st'"
    by (auto split: sum.splits)
  from Cons.IH [OF e push_keeps_top [OF Cons.prems(2)]] show ?case .
qed

lemma expand_top:
  assumes "inj hf" "keys_ok rs cur"
    "expand hf rs cur ms st = Inr st'"
    "top_in_open hf st \<or> bounded_keys hf (g_scores st) (fp_z (state_tuple cur))"
  shows "(top_in_open hf st' \<or> bounded_keys hf (g_scores st') (fp_z (state_tuple cur)))
       \<and> (Maneuver_init (ac_callsign (res_A rs)) 0 1000 0 \<in> set ms \<longrightarrow> top_in_open hf st')"
  using assms(3,4)
proof (induction ms arbitrary: st)
  case Nil
  then show ?case by simp
next
  case (Cons m ms)
  from Cons.prems(1) obtain s where s: "successor rs cur m = Inr s"
    and e: "expand hf rs cur ms (push_successor hf s st) = Inr st'"
    by (auto split: sum.splits)
  let ?st1 = "push_successor hf s st"
  have inv1: "top_in_open hf ?st1 \<or> bounded_keys hf (g_scores ?st1) (fp_z (state_tuple cur))"
    using Cons.prems(2) push_keeps_top push_below_level by blast
  have keep: "top_in_open hf st'" if "top_in_open hf ?st1"
    using expand_keeps_top [OF e that] .
  have "top_in_open hf ?st1" if "m = Maneuver_init (ac_callsign (res_A rs)) 0 1000 0"
  proof -
    from s that assms(2) have "fp_z (state_tuple cur) < fp_z (state_tuple s)"
      using successor_A_up_fp by blast
    with Cons.prems(2) show ?thesis
      using push_keeps_top push_above_level [OF assms(1)] by blast
  qed
  with keep Cons.IH [OF e inv1] show ?case by auto
qed

lemma astar_step_top:
  assumes "inj hf" "nodes_ok rs st" "top_in_open hf st" "astar_step hf rs st = Inr st'"
  shows "top_in_open hf st'"
proof -
  from assms(4) obtain cur rest where
    p: "heappop cs_lt (open_list st) = Some (cur, rest)"
    and e: "expand hf rs cur (MANEUVER_OPTIONS rs) (st\<lparr>open_list := rest\<rparr>) = Inr st'"
    by (auto simp: astar_step_def split: option.splits if_splits sum.splits)
  from set_heappop [OF p] have sub: "set (open_list st) = insert cur (set rest)" .
  with assms(2) have k: "keys_ok rs cur" by (simp add: nodes_ok_def)
  from assms(3) sub have
    "top_in_open hf (st\<lparr>open_list := rest\<rparr>)
     \<or> bounded_keys hf (g_scores (st\<lparr>open_list := rest\<rparr>)) (fp_z (state_tuple cur))"
    by (auto simp: top_in_open_def)
  from expand_top [OF assms(1) k e this] A_up_in_options show ?thesis by blast
qed

lemma top_in_open_init: "top_in_open hf (init_search_state hf rs)"
  by (simp add: top_in_open_def init_search_state_def bounded_keys_def cs_hash_def) blast

lemma top_in_open_nonempty: "top_in_open hf st \<Longrightarrow> open_list st \<noteq> []"
  by (auto simp: top_in_open_def)

lemma astar_step_success:
  assumes "astar_step hf rs st = Inl (Inr path)"
  shows "\<exists>cur rest. heappop cs_lt (open_list st) = Some (cur, rest) \<and> h_cost cur = 0
           \<and> path = reconstruct_path cur"
  using assms by (auto simp: astar_step_def split: option.splits if_splits sum.splits)

lemma astar_loop_exits:
  "inj hf \<Longrightarrow> nodes_ok rs st \<Longrightarrow> top_in_open hf st \<Longrightarrow> n \<le> max_search_nodes \<Longrightarrow>
   \<exists>r st' k. astar_loop hf rs st n = (r, st', k)
     \<and> ((\<exists>cur rest. heappop cs_lt (open_list st') = Some (cur, rest) \<and> h_cost cur = 0
            \<and> r = Inr (Some (reconstruct_path cur)) \<and> k \<le> max_search_nodes)
        \<or> (r = Inr None \<and> k = max_search_nodes \<and> open_list st' \<noteq> []))"
proof (induction hf rs st n rule: astar_loop.induct)
  case (1 hf rs st n)
  have ne: "open_list st \<noteq> []" using "1.prems"(3) by (rule top_in_open_nonempty)
  show ?case
  proof (cases "n < max_search_nodes")
    case False
    with "1.prems"(4) have "n = max_search_nodes" by simp
    then show ?thesis
      using ne by (subst astar_loop.simps) simp
  next
    case True
    show ?thesis
    proof (cases "astar_step hf rs st")
      case (Inl res)
      then obtain path where r: "res = Inr path"
        using astar_step_no_raise [OF "1.prems"(2) ne, of hf] by (cases res) auto
      from astar_step_success [OF Inl [unfolded r]] Inl r True ne show ?thesis
        by (subst astar_loop.simps) auto
    next
      case (Inr st')
      from astar_step_nodes_ok [OF Inr "1.prems"(2)] have ok: "nodes_ok rs st'" .
      from astar_step_top [OF "1.prems"(1,2,3) Inr] have top: "top_in_open hf st'" .
      from True have "n + 1 \<le> max_search_nodes" by simp
      from "1.IH" [OF conjI [OF ne True] Inr "1.prems"(1) ok top this] Inr True ne
      show ?thesis
        by (subst astar_loop.simps) simp
    qed
  qed
qed

lemma inj_ideal_hash: "inj ideal_hash"
  by (rule injI) (simp add: ideal_hash_def)

lemma heappop_single: "heappop lt [x] = Some (x, [])"
  by (simp add: heappop_def)

lemma heuristic_cong:
  "aircraft_states a = aircraft_states b \<Longrightarrow> heuristic rs a = heuristic rs b"
  by (simp add: heuristic_def calculate_cpa_def get_aircraft_data_def)

lemma h_cost_with_heuristic: "h_cost (with_heuristic rs st) = heuristic rs st"
  by (simp add: with_heuristic_def Let_def)

lemma h_cost_initial: "h_cost (initial_state rs) = heuristic rs (initial_state rs)"
  unfolding initial_state_def h_cost_with_heuristic
  by (rule heuristic_cong) simp

lemma roster_cd_run:
  "astar_run hf resolver_cd = (Inr (Some []), init_search_state hf resolver_cd, 1)"
proof -
  have "heuristic resolver_cd (initial_state resolver_cd) = 0"
    by (rule heuristic_safe) (simp add: roster_cd_states kin_z_def)
  then have h: "h_cost (initial_state resolver_cd) = 0" by (simp add: h_cost_initial)
  have l: "link (initial_state resolver_cd) = None"
    by (simp add: initial_state_def with_heuristic_def Let_def)
  have "reconstruct_path (initial_state resolver_cd) = []"
    using l by (cases "initial_state resolver_cd") (simp add: reconstruct_path_def)
  then have "astar_step hf resolver_cd (init_search_state hf resolver_cd) = Inl (Inr [])"
    by (simp add: astar_step_def init_search_state_def heappop_single h)
  then show ?thesis
    unfolding astar_run_def
    by (subst astar_loop.simps) (simp add: init_search_state_def max_search_nodes_def)
qed

text \<open>
  In exact arithmetic and with a collision-free hash the open list never runs empty: the
  search ends by a popped node with \<open>h = 0\<close> or at exactly 1000 pops.
\<close>

lemma exact_search_two_exits:
  assumes "inj hf"
  shows "\<exists>r st k. astar_run hf rs = (r, st, k)
     \<and> ((\<exists>cur rest. heappop cs_lt (open_list st) = Some (cur, rest) \<and> h_cost cur = 0
            \<and> r = Inr (Some (reconstruct_path cur)) \<and> k \<le> 1000)
        \<or> (r = Inr None \<and> k = 1000 \<and> open_list st \<noteq> []))"
  using astar_loop_exits [OF assms nodes_ok_init top_in_open_init, of 0 rs]
  by (simp add: astar_run_def max_search_nodes_def)

subsection \<open>The controller: fresh pass and registration\<close>

lemma clear_for_scan_idem_rm: "clear_for_scan (c\<lparr>resolved_maneuvers := rm\<rparr>) = clear_for_scan c"
  by (simp add: clear_for_scan_def)

lemma clear_for_scan_idem_flags:
  "clear_for_scan (c\<lparr>aircraft_list := map (\<lambda>ac. ac\<lparr>ac_conflict_alert := fl ac\<rparr>) (aircraft_list c)\<rparr>)
     = clear_for_scan c"
  by (simp add: clear_for_scan_def comp_def)

text \<open>
  Claim C7. \<open>check_for_conflicts\<close> starts by clearing every conflict flag and emptying
  \<open>resolved_maneuvers\<close>, and the scan runs on the cleared controller only: its outcome is
  the same whatever queues and flags the controller held before, so a queue left from an
  earlier tick does not survive into the new pass.
\<close>

theorem check_for_conflicts_fresh_pass:
  "map ac_conflict_alert (aircraft_list (clear_for_scan c)) = replicate (length (aircraft_list c)) False
   \<and> resolved_maneuvers (clear_for_scan c) = Map.empty
   \<and> check_for_conflicts hf c
       = scan_outer hf (length (aircraft_list c)) [0 ..< length (aircraft_list c)] (clear_for_scan c, [])
   \<and> check_for_conflicts hf (c\<lparr>resolved_maneuvers := rm\<rparr>) = check_for_conflicts hf c
   \<and> check_for_conflicts hf
        (c\<lparr>aircraft_list := map (\<lambda>ac. ac\<lparr>ac_conflict_alert := fl ac\<rparr>) (aircraft_list c)\<rparr>)
       = check_for_conflicts hf c"
proof -
  have 1: "map ac_conflict_alert (aircraft_list (clear_for_scan c))
             = replicate (length (aircraft_list c)) False"
    by (simp add: clear_for_scan_def comp_def map_replicate_const)
  have 2: "resolved_maneuvers (clear_for_scan c) = Map.empty"
    by (simp add: clear_for_scan_def)
  have 3: "check_for_conflicts hf c
       = scan_outer hf (length (aircraft_list c)) [0 ..< length (aircraft_list c)] (clear_for_scan c, [])"
    by (simp add: check_for_conflicts_def Let_def clear_for_scan_def)
  have 4: "check_for_conflicts hf (c\<lparr>resolved_maneuvers := rm\<rparr>) = check_for_conflicts hf c"
    by (simp add: check_for_conflicts_def clear_for_scan_idem_rm)
  have 5: "check_for_conflicts hf
        (c\<lparr>aircraft_list := map (\<lambda>ac. ac\<lparr>ac_conflict_alert := fl ac\<rparr>) (aircraft_list c)\<rparr>)
       = check_for_conflicts hf c"
    by (simp add: check_for_conflicts_def clear_for_scan_idem_flags)
  from 1 2 3 4 5 show ?thesis by blast
qed

lemma controller_cd_list:
  "aircraft_list controller_cd_queued = [plane_c, plane_d]"
  by (simp add: controller_cd_queued_def add_aircraft_def ATC_Controller_init_def)

lemma process_pair_cd:
  "process_pair hf 0 (Suc 0) (clear_for_scan controller_cd_queued, []) = Inr (clear_for_scan controller_cd_queued, [])"
  by (simp add: process_pair_def clear_for_scan_def controller_cd_list plane_c_def plane_d_def
      Aircraft_init_def VERTICAL_MIN_def Let_def)

theorem check_for_conflicts_fresh_pass_witness:
  "resolved_maneuvers controller_cd_queued ''SWA789'' = Some [Maneuver_init ''SWA789'' 0 1000 0]
   \<and> check_for_conflicts ideal_hash controller_cd_queued
       = Inr (controller_cd_queued\<lparr>resolved_maneuvers := Map.empty\<rparr>, [])"
proof -
  have u: "[0 ..< 2] = [0, Suc 0]" "[Suc 0 ..< 2] = [Suc 0]" "[2 ..< 2] = []"
    by (simp_all add: upt_rec)
  have len: "length (aircraft_list controller_cd_queued) = 2"
    by (simp add: controller_cd_list)
  have c: "clear_for_scan controller_cd_queued = controller_cd_queued\<lparr>resolved_maneuvers := Map.empty\<rparr>"
    by (simp add: clear_for_scan_def controller_cd_list plane_c_def plane_d_def Aircraft_init_def)
  have s: "scan_outer ideal_hash 2 [0 ..< 2] (clear_for_scan controller_cd_queued, [])
          = Inr (clear_for_scan controller_cd_queued, [])"
    by (simp add: u process_pair_cd)
  have "check_for_conflicts ideal_hash controller_cd_queued
          = scan_outer ideal_hash (length (aircraft_list controller_cd_queued))
              [0 ..< length (aircraft_list controller_cd_queued)]
              (clear_for_scan controller_cd_queued, [])"
    using check_for_conflicts_fresh_pass [of controller_cd_queued ideal_hash] by blast
  also have "\<dots> = Inr (clear_for_scan controller_cd_queued, [])"
    unfolding len by (rule s)
  finally have "check_for_conflicts ideal_hash controller_cd_queued
          = Inr (controller_cd_queued\<lparr>resolved_maneuvers := Map.empty\<rparr>, [])"
    unfolding c .
  moreover have "resolved_maneuvers controller_cd_queued ''SWA789''
          = Some [Maneuver_init ''SWA789'' 0 1000 0]"
    by (simp add: controller_cd_queued_def)
  ultimately show ?thesis by simp
qed

text \<open>
  Claim C8 as stated fails for \<open>add_aircraft\<close> of the controller: registering an aircraft
  whose callsign is already present succeeds and the collection grows.
\<close>

theorem add_aircraft_duplicate_counterexample:
  "ac_callsign (aircraft_list (add_aircraft (ATC_Controller_init 5) plane_a) ! 0) = ac_callsign plane_a
   \<and> aircraft_list (add_aircraft (add_aircraft (ATC_Controller_init 5) plane_a) plane_a)
       = [plane_a, plane_a]
   \<and> aircraft_list (add_aircraft (add_aircraft (ATC_Controller_init 5) plane_a) plane_a)
       \<noteq> aircraft_list (add_aircraft (ATC_Controller_init 5) plane_a)"
  by (simp add: add_aircraft_def ATC_Controller_init_def)

text \<open>
  Claim C8, amended. \<open>add_aircraft\<close> of the controller appends the aircraft without any
  check. The duplicate check is made by its caller in the dialog: when the numeric entries
  parse and some registered aircraft has the upper-cased entered callsign, the dialog
  reports the duplicate and leaves the collection unchanged; when none has, the aircraft is
  appended under the upper-cased callsign; when a numeric entry does not parse, the dialog
  reports invalid numbers and leaves the collection unchanged.
\<close>

theorem add_aircraft_caller_checks:
  "aircraft_list (add_aircraft c ac) = aircraft_list c @ [ac]
   \<and> ((\<exists>a \<in> set (aircraft_list c). ac_callsign a = upper cs) \<longrightarrow>
         dialog_add_aircraft c cs (Some x) (Some y) (Some z) (Some sp) (Some hdg) = (Callsign_Exists, c))
   \<and> (\<not> (\<exists>a \<in> set (aircraft_list c). ac_callsign a = upper cs) \<longrightarrow>
         dialog_add_aircraft c cs (Some x) (Some y) (Some z) (Some sp) (Some hdg)
           = (Added, add_aircraft c (Aircraft_init (upper cs) x y z sp hdg)))
   \<and> (ex = None \<or> ey = None \<or> ez = None \<or> esp = None \<or> ehd = None \<longrightarrow>
         dialog_add_aircraft c cs ex ey ez esp ehd = (Invalid_Numbers, c))"
  by (auto simp: add_aircraft_def dialog_add_aircraft_def Let_def split: option.splits)

lemma upper_example: "upper ''aal123'' = ''AAL123''"
  by (simp add: upper_def upper_char_def char_of_def bit_0 bit_Suc)

theorem add_aircraft_caller_checks_witness:
  "(\<exists>a \<in> set (aircraft_list (add_aircraft (ATC_Controller_init 5) plane_a)).
       ac_callsign a = upper ''aal123'')
   \<and> dialog_add_aircraft (add_aircraft (ATC_Controller_init 5) plane_a) ''aal123''
        (Some 0) (Some 0) (Some 33000) (Some 450) (Some 0)
       = (Callsign_Exists, add_aircraft (ATC_Controller_init 5) plane_a)
   \<and> dialog_add_aircraft (add_aircraft (ATC_Controller_init 5) plane_a) ''aal123''
        (Some 0) None (Some 33000) (Some 450) (Some 0)
       = (Invalid_Numbers, add_aircraft (ATC_Controller_init 5) plane_a)"
proof -
  have h: "\<exists>a \<in> set (aircraft_list (add_aircraft (ATC_Controller_init 5) plane_a)).
       ac_callsign a = upper ''aal123''"
    by (simp add: add_aircraft_def ATC_Controller_init_def plane_a_def Aircraft_init_def upper_example)
  show ?thesis
    using h add_aircraft_caller_checks [of "add_aircraft (ATC_Controller_init 5) plane_a" plane_a
        "''aal123''" 0 0 33000 450 0 "Some 0" None "Some 33000" "Some 450" "Some 0"]
    by simp
qed

subsection \<open>The root of the priority queue\<close>

lemma siftdown_loop_root_stays:
  "pos < length heap \<Longrightarrow> 0 < pos \<Longrightarrow> \<not> lt item (heap ! 0) \<Longrightarrow>
   siftdown_loop lt heap 0 pos item ! 0 = heap ! 0"
proof (induction lt heap "0 :: nat" pos item rule: siftdown_loop.induct)
  case (1 lt heap pos newitem)
  let ?pp = "(pos - 1) div 2"
  show ?case
  proof (cases "lt newitem (heap ! ?pp)")
    case True
    with "1.prems" have pp: "0 < ?pp" by (cases "?pp = 0") auto
    have "?pp < pos" using "1.prems" by auto
    then have "siftdown_loop lt (heap[pos := heap ! ?pp]) 0 ?pp newitem ! 0 = heap[pos := heap ! ?pp] ! 0"
      using "1.prems" pp True by (intro "1.hyps") simp_all
    then show ?thesis
      using True "1.prems" by (subst siftdown_loop.simps) (simp add: Let_def)
  next
    case False
    then show ?thesis
      using "1.prems" by (subst siftdown_loop.simps) (simp add: Let_def)
  qed
qed

lemma heappush_root_stays:
  assumes "heap \<noteq> []" "\<not> lt item (heap ! 0)"
  shows "heappush lt heap item ! 0 = heap ! 0"
proof -
  have "0 < length heap" using assms(1) by simp
  then show ?thesis
    using assms(2) siftdown_loop_root_stays [of "length heap" "heap @ [item]" lt item]
    by (simp add: heappush_def siftdown_def nth_append)
qed

lemma siftdown_loop_to_root:
  "pos < length heap \<Longrightarrow> (\<forall>i < pos. lt item (heap ! i)) \<Longrightarrow>
   siftdown_loop lt heap 0 pos item ! 0 = item"
proof (induction lt heap "0 :: nat" pos item rule: siftdown_loop.induct)
  case (1 lt heap pos newitem)
  let ?pp = "(pos - 1) div 2"
  show ?case
  proof (cases "0 < pos")
    case True
    then have pp: "?pp < pos" by auto
    with "1.prems" have lt: "lt newitem (heap ! ?pp)" by simp
    have "siftdown_loop lt (heap[pos := heap ! ?pp]) 0 ?pp newitem ! 0 = newitem"
      using "1.prems" pp True lt by (intro "1.hyps") simp_all
    then show ?thesis
      using True lt by (subst siftdown_loop.simps) (simp add: Let_def)
  next
    case False
    then show ?thesis
      using "1.prems" by (subst siftdown_loop.simps) simp
  qed
qed

lemma heappush_new_min:
  assumes "\<forall>x \<in> set heap. lt item x"
  shows "heappush lt heap item ! 0 = item"
proof -
  have "\<forall>i < length heap. lt item ((heap @ [item]) ! i)"
    using assms by (simp add: nth_append)
  then show ?thesis
    using siftdown_loop_to_root [of "length heap" "heap @ [item]" lt item]
    by (simp add: heappush_def siftdown_def)
qed

lemma heappush_nonempty: "heappush lt heap item \<noteq> []"
  using heappush_mset [of lt heap item] by (metis mset_zero_iff add_mset_not_empty)

lemma heappop_root: "heap \<noteq> [] \<Longrightarrow> \<exists>rest. heappop lt heap = Some (heap ! 0, rest)"
proof -
  assume ne: "heap \<noteq> []"
  show ?thesis
  proof (cases "butlast heap = []")
    case True
    with ne have "heap = [last heap]" by (metis append_butlast_last_id append_Nil)
    then have "last heap = heap ! 0" by (metis nth_Cons_0)
    with ne True show ?thesis by (simp add: heappop_def Let_def)
  next
    case False
    then have "butlast heap ! 0 = heap ! 0"
      by (metis length_greater_0_conv nth_butlast)
    with ne False show ?thesis by (simp add: heappop_def Let_def)
  qed
qed

subsection \<open>Costs of successors\<close>

lemma cpa_of_vsep: "fst (snd (cpa_of L a b)) = \<bar>kin_z a - kin_z b\<bar>"
  by (cases a; cases b) (simp add: cpa_of_def kin_z_def Let_def)

lemma hdist_deficit_nonneg: "0 \<le> hdist_deficit c d"
  by (cases d) (simp_all add: hdist_deficit_def)

lemma heuristic_nonneg: "0 \<le> heuristic rs st"
proof -
  obtain d v t where c: "calculate_cpa rs st = (d, v, t)" by (cases "calculate_cpa rs st")
  have "0 \<le> (hdist_deficit HORIZONTAL_MIN d / HORIZONTAL_MIN + max 0 (VERTICAL_MIN - v) / VERTICAL_MIN) * 5"
    using hdist_deficit_nonneg [of HORIZONTAL_MIN d]
    by (simp add: HORIZONTAL_MIN_def VERTICAL_MIN_def)
  then show ?thesis
    by (simp add: heuristic_def c Let_def)
qed

lemma heuristic_level:
  assumes "kin_z (state_A rs st) = kin_z (state_B rs st)"
  shows "5 \<le> heuristic rs st"
proof -
  obtain d v t where c: "calculate_cpa rs st = (d, v, t)" by (cases "calculate_cpa rs st")
  have "v = 0"
    using cpa_of_vsep [of "lookahead_hrs rs" "state_A rs st" "state_B rs st"] assms
    by (simp add: calculate_cpa_eq [symmetric] c)
  moreover have "5 \<le> (hdist_deficit HORIZONTAL_MIN d / HORIZONTAL_MIN + 1) * 5"
    using hdist_deficit_nonneg [of HORIZONTAL_MIN d] by (simp add: HORIZONTAL_MIN_def)
  ultimately show ?thesis
    by (simp add: heuristic_def c Let_def VERTICAL_MIN_def)
qed

lemma successor_costs:
  assumes "successor rs cur m = Inr s"
  shows "h_cost s = heuristic rs s" "f_cost s = g_cost cur + cost m + heuristic rs s"
proof -
  from assms obtain sts where
    s: "s = with_heuristic rs (ConflictState sts (g_cost cur + cost m) 0 0 (Some (cur, m)))"
    by (auto simp: successor_def Let_def split: option.splits)
  have h: "heuristic rs s = heuristic rs (ConflictState sts (g_cost cur + cost m) 0 0 (Some (cur, m)))"
    unfolding s by (rule heuristic_cong) simp
  show "h_cost s = heuristic rs s"
    unfolding h unfolding s by (simp add: with_heuristic_def Let_def)
  show "f_cost s = g_cost cur + cost m + heuristic rs s"
    unfolding h unfolding s by (simp add: with_heuristic_def Let_def)
qed

lemma successor_kin_z:
  assumes "successor rs cur m = Inr s"
  shows "kin_z (get_aircraft_data s c) =
     (if c = mv_callsign m then max 5000 (kin_z (get_aircraft_data cur c) + altitude_change m)
      else kin_z (get_aircraft_data cur c))"
proof -
  from successor_states [OF assms] obtain x y z sp hdg w4 w5 where
    l: "map_of (aircraft_states cur) (mv_callsign m) = Some (x, y, z, sp, hdg)"
    and u: "aircraft_states s =
      AList.update (mv_callsign m) (x, y, max 5000 (z + altitude_change m), w4, w5) (aircraft_states cur)"
    by blast
  show ?thesis
    by (simp add: get_aircraft_data_def u update_conv' l kin_z_def)
qed

lemma cost_options: "m \<in> set (MANEUVER_OPTIONS rs) \<Longrightarrow> 1 / 2 \<le> cost m"
  by (auto simp: MANEUVER_OPTIONS_def Maneuver_init_def cost_def)

lemma expand_append:
  "expand hf rs cur (xs @ ys) st =
     (case expand hf rs cur xs st of Inl e \<Rightarrow> Inl e | Inr st1 \<Rightarrow> expand hf rs cur ys st1)"
  by (induction xs arbitrary: st) (auto split: sum.splits)

lemma expand_keys:
  assumes "expand hf rs cur ms st = Inr st'" "k \<in> dom (g_scores st')"
  shows "k \<in> dom (g_scores st) \<or> (\<exists>m \<in> set ms. \<exists>s. successor rs cur m = Inr s \<and> k = hf (state_tuple s))"
  using assms
proof (induction ms arbitrary: st)
  case Nil
  then show ?case by simp
next
  case (Cons m ms)
  from Cons.prems(1) obtain s where s: "successor rs cur m = Inr s"
    and e: "expand hf rs cur ms (push_successor hf s st) = Inr st'"
    by (auto split: sum.splits)
  from Cons.IH [OF e Cons.prems(2)] push_successor_cases [of hf s st] s
  show ?case by auto
qed

lemma expand_root_stays:
  assumes "expand hf rs cur ms st = Inr st'" "open_list st \<noteq> []"
    "\<forall>m \<in> set ms. \<forall>s. successor rs cur m = Inr s \<longrightarrow> \<not> cs_lt s (open_list st ! 0)"
  shows "open_list st' \<noteq> [] \<and> open_list st' ! 0 = open_list st ! 0"
  using assms
proof (induction ms arbitrary: st)
  case Nil
  then show ?case by simp
next
  case (Cons m ms)
  from Cons.prems(1) obtain s where s: "successor rs cur m = Inr s"
    and e: "expand hf rs cur ms (push_successor hf s st) = Inr st'"
    by (auto split: sum.splits)
  from Cons.prems(3) s have nlt: "\<not> cs_lt s (open_list st ! 0)" by simp
  have k: "open_list (push_successor hf s st) \<noteq> []
      \<and> open_list (push_successor hf s st) ! 0 = open_list st ! 0"
  proof -
    from push_successor_cases [of hf s st] show ?thesis
    proof
      assume "push_successor hf s st = st"
      with Cons.prems(2) show ?thesis by simp
    next
      assume "open_list (push_successor hf s st) = heappush cs_lt (open_list st) s
        \<and> g_scores (push_successor hf s st) = (g_scores st)(hf (state_tuple s) \<mapsto> g_cost s)"
      then have "open_list (push_successor hf s st) = heappush cs_lt (open_list st) s" ..
      then show ?thesis
        using heappush_nonempty [of cs_lt "open_list st" s]
          heappush_root_stays [of "open_list st" cs_lt s] Cons.prems(2) nlt by simp
    qed
  qed
  with Cons.prems(3) have
    "\<forall>m \<in> set ms. \<forall>s'. successor rs cur m = Inr s' \<longrightarrow> \<not> cs_lt s' (open_list (push_successor hf s st) ! 0)"
    by simp
  from Cons.IH [OF e conjunct1 [OF k] this] k show ?case by simp
qed

lemma path_walk_link:
  "link n = None \<Longrightarrow> path_walk n = []"
  "link n = Some (p, m) \<Longrightarrow> path_walk n = m # path_walk p"
  by (cases n; simp)+

lemma initial_state_fields:
  "g_cost (initial_state rs) = 0" "link (initial_state rs) = None"
  "aircraft_states (initial_state rs) = initial_aircraft_data rs"
  by (simp_all add: initial_state_def with_heuristic_def Let_def)

lemma initial_state_AB:
  "state_B rs (initial_state rs) = kin_of (res_B rs)"
  "ac_callsign (res_A rs) \<noteq> ac_callsign (res_B rs) \<Longrightarrow> state_A rs (initial_state rs) = kin_of (res_A rs)"
  by (auto simp: state_A_def state_B_def get_aircraft_data_def initial_state_fields
      initial_aircraft_data_def)

subsection \<open>The search for two agents at one flight level\<close>

lemma py_round0_minus_1000: "py_round0 (v - 1000) = py_round0 v - 1000"
  using py_round0_plus_1000 [of "v - 1000"] by simp

lemma options_split:
  "MANEUVER_OPTIONS rs =
     (map (\<lambda>d. Maneuver_init (ac_callsign (res_A rs)) d 0 0) [-10, 10, -5, 5]
      @ map (\<lambda>d. Maneuver_init (ac_callsign (res_B rs)) d 0 0) [-10, 10, -5, 5])
     @ Maneuver_init (ac_callsign (res_A rs)) 0 (-1000) 0
     # [Maneuver_init (ac_callsign (res_A rs)) 0 1000 0,
        Maneuver_init (ac_callsign (res_B rs)) 0 (-1000) 0,
        Maneuver_init (ac_callsign (res_B rs)) 0 1000 0]"
  by (simp add: MANEUVER_OPTIONS_def)

lemma search_level_pair:
  assumes inj: "inj hf"
    and ne: "ac_callsign (res_A rs) \<noteq> ac_callsign (res_B rs)"
    and lvl: "ac_z (res_A rs) = ac_z (res_B rs)"
    and hi: "6000 \<le> ac_z (res_A rs)"
  shows "a_star_search hf rs = Inr (Some [Maneuver_init (ac_callsign (res_A rs)) 0 (-1000) 0])
       \<and> pops hf rs = 2"
proof -
  let ?A = "ac_callsign (res_A rs)" and ?B = "ac_callsign (res_B rs)"
  let ?z = "ac_z (res_A rs)"
  let ?root = "initial_state rs"
  let ?hs = "map (\<lambda>d. Maneuver_init ?A d 0 0) [-10, 10, -5, 5]
      @ map (\<lambda>d. Maneuver_init ?B d 0 0) [-10, 10, -5, 5]"
  let ?down = "Maneuver_init ?A 0 (-1000) 0"
  let ?tl = "[Maneuver_init ?A 0 1000 0, Maneuver_init ?B 0 (-1000) 0, Maneuver_init ?B 0 1000 0]"
  let ?st0 = "(init_search_state hf rs)\<lparr>open_list := []\<rparr>"
  have opts: "MANEUVER_OPTIONS rs = ?hs @ ?down # ?tl" by (rule options_split)
  have kroot: "keys_ok rs ?root" by (rule keys_ok_initial)
  have zA: "kin_z (state_A rs ?root) = ?z" and zB: "kin_z (state_B rs ?root) = ?z"
    using ne lvl by (simp_all add: initial_state_AB kin_of_def kin_z_def)
  have hroot: "h_cost ?root \<noteq> 0"
    using heuristic_level [of rs ?root] zA zB by (simp add: h_cost_initial)
  \<comment> \<open>successors of the root\<close>
  have succ_f: "1 / 2 \<le> f_cost s" if "m \<in> set (MANEUVER_OPTIONS rs)" "successor rs ?root m = Inr s" for m s
    using successor_costs(2) [OF that(2)] cost_options [OF that(1)] heuristic_nonneg [of rs s]
    by (simp add: initial_state_fields)
  have hs_level: "kin_z (state_A rs s) = ?z \<and> kin_z (state_B rs s) = ?z"
    if "m \<in> set ?hs" "successor rs ?root m = Inr s" for m s
  proof -
    from that(1) have a0: "altitude_change m = 0"
      and cs: "mv_callsign m = ?A \<or> mv_callsign m = ?B"
      by (auto simp: Maneuver_init_def)
    have zA': "kin_z (get_aircraft_data ?root ?A) = ?z" and zB': "kin_z (get_aircraft_data ?root ?B) = ?z"
      using zA zB by (simp_all add: state_A_def state_B_def)
    from cs show ?thesis
    proof
      assume "mv_callsign m = ?A"
      then show ?thesis
        using successor_kin_z [OF that(2), of ?A] successor_kin_z [OF that(2), of ?B] a0 zA' zB' hi ne
        by (simp add: state_A_def state_B_def)
    next
      assume "mv_callsign m = ?B"
      then show ?thesis
        using successor_kin_z [OF that(2), of ?A] successor_kin_z [OF that(2), of ?B] a0 zA' zB' hi ne lvl
        by (simp add: state_A_def state_B_def)
    qed
  qed
  have hs_f: "5 \<le> f_cost s" if "m \<in> set ?hs" "successor rs ?root m = Inr s" for m s
  proof -
    have "set ?hs \<subseteq> set (MANEUVER_OPTIONS rs)" unfolding opts by (simp only: set_append) blast
    with that(1) have "m \<in> set (MANEUVER_OPTIONS rs)" by blast
    from cost_options [OF this] successor_costs(2) [OF that(2)]
      heuristic_level [of rs s] hs_level [OF that]
    show ?thesis by (simp add: initial_state_fields)
  qed
  have hs_fp: "fp_z (state_tuple s) = py_round0 ?z" if "m \<in> set ?hs" "successor rs ?root m = Inr s" for m s
    using fp_z_node [OF successor_keys_ok [OF that(2) kroot]] hs_level [OF that] by simp
  \<comment> \<open>the first eight maneuvers\<close>
  obtain st12 where e12: "expand hf rs ?root (MANEUVER_OPTIONS rs) ?st0 = Inr st12"
    using expand_defined [OF kroot subset_refl] by blast
  then obtain st8 where e8: "expand hf rs ?root ?hs ?st0 = Inr st8"
    and e_rest: "expand hf rs ?root (?down # ?tl) st8 = Inr st12"
    unfolding opts expand_append by (auto split: sum.splits)
  have open8: "5 \<le> f_cost x" if "x \<in> set (open_list st8)" for x
    using expand_open [OF e8 that] hs_f by auto
  have keys8: "\<exists>fp. k = hf fp \<and> fp_z fp = py_round0 ?z" if "k \<in> dom (g_scores st8)" for k
  proof -
    from expand_keys [OF e8 that] show ?thesis
    proof
      assume "k \<in> dom (g_scores ?st0)"
      then have "k = hf (state_tuple ?root)"
        by (simp add: init_search_state_def cs_hash_def split: if_splits)
      then show ?thesis
        using fp_z_node [OF kroot] zA by auto
    next
      assume "\<exists>m \<in> set ?hs. \<exists>s. successor rs ?root m = Inr s \<and> k = hf (state_tuple s)"
      then show ?thesis using hs_fp by blast
    qed
  qed
  \<comment> \<open>the descent of agent A\<close>
  from e_rest obtain n9 where s9: "successor rs ?root ?down = Inr n9"
    and e_tl: "expand hf rs ?root ?tl (push_successor hf n9 st8) = Inr st12"
    by (auto split: sum.splits)
  have z9: "kin_z (state_A rs n9) = ?z - 1000" "kin_z (state_B rs n9) = ?z"
    using successor_kin_z [OF s9] zA zB hi ne
    by (simp_all add: state_A_def state_B_def Maneuver_init_def)
  have h9: "heuristic rs n9 = 0"
    by (rule heuristic_safe) (simp add: z9)
  have f9: "f_cost n9 = 1 / 2" "h_cost n9 = 0"
    using successor_costs [OF s9] h9
    by (simp_all add: initial_state_fields cost_def Maneuver_init_def)
  have fp9: "fp_z (state_tuple n9) = py_round0 ?z - 1000"
    using fp_z_node [OF successor_keys_ok [OF s9 kroot]] z9 by (simp add: py_round0_minus_1000)
  have fresh9: "hf (state_tuple n9) \<notin> dom (g_scores st8)"
  proof
    assume "hf (state_tuple n9) \<in> dom (g_scores st8)"
    from keys8 [OF this] obtain fp where "hf (state_tuple n9) = hf fp" "fp_z fp = py_round0 ?z"
      by blast
    with inj fp9 show False by (auto dest: injD)
  qed
  let ?st9 = "push_successor hf n9 st8"
  have o9: "open_list ?st9 = heappush cs_lt (open_list st8) n9"
    using push_successor_fresh [of hf n9 st8] fresh9 by simp
  have "\<forall>x \<in> set (open_list st8). cs_lt n9 x"
    using open8 f9 by (auto simp: cs_lt_def dest!: open8)
  then have root9: "open_list ?st9 ! 0 = n9" "open_list ?st9 \<noteq> []"
    unfolding o9 by (simp_all add: heappush_new_min heappush_nonempty)
  \<comment> \<open>the last three maneuvers leave the root of the queue in place\<close>
  have "\<forall>m \<in> set ?tl. \<forall>s. successor rs ?root m = Inr s \<longrightarrow> \<not> cs_lt s (open_list ?st9 ! 0)"
  proof (intro ballI allI impI)
    fix m s assume m: "m \<in> set ?tl" and s: "successor rs ?root m = Inr s"
    from m have "m \<in> set (MANEUVER_OPTIONS rs)" unfolding opts by auto
    from succ_f [OF this s] show "\<not> cs_lt s (open_list ?st9 ! 0)"
      by (simp add: root9 cs_lt_def f9)
  qed
  from expand_root_stays [OF e_tl root9(2) this]
  have root12: "open_list st12 \<noteq> []" "open_list st12 ! 0 = n9"
    by (simp_all add: root9)
  \<comment> \<open>the two iterations of the loop\<close>
  have step1: "astar_step hf rs (init_search_state hf rs) = Inr st12"
    using hroot e12 by (simp add: astar_step_def init_search_state_def heappop_single)
  from heappop_root [OF root12(1), of cs_lt] obtain rest where
    "heappop cs_lt (open_list st12) = Some (n9, rest)" by (auto simp: root12)
  moreover have "reconstruct_path n9 = [?down]"
    using successor_states [OF s9]
    by (auto simp: reconstruct_path_def path_walk_link initial_state_fields)
  ultimately have step2: "astar_step hf rs st12 = Inl (Inr [?down])"
    by (simp add: astar_step_def f9)
  have "astar_loop hf rs st12 1 = (Inr (Some [?down]), st12, 2)"
    using root12(1) step2 by (subst astar_loop.simps) (simp add: max_search_nodes_def)
  then have "astar_run hf rs = (Inr (Some [?down]), st12, 2)"
    unfolding astar_run_def using step1
    by (subst astar_loop.simps) (simp add: max_search_nodes_def init_search_state_def)
  then show ?thesis by (simp add: a_star_search_def pops_def)
qed

subsection \<open>Dispatched searches within one scan\<close>

lemma trig_roster:
  "sin (radians 90) = 1" "cos (radians 90) = 0"
  "sin (radians 270) = - 1" "cos (radians 270) = 0"
  using sin_3over2_pi cos_3over2_pi by (simp_all add: radians_def)

lemma plane_fields:
  "ac_callsign plane_a = ''AAL123''" "ac_x plane_a = - 20" "ac_y plane_a = 0" "ac_z plane_a = 30000"
  "ac_speed plane_a = 450" "ac_heading plane_a = 90" "ac_conflict_alert plane_a = False"
  "ac_callsign plane_b = ''UAL456''" "ac_x plane_b = 20" "ac_y plane_b = 0" "ac_z plane_b = 30000"
  "ac_speed plane_b = 450" "ac_heading plane_b = 270" "ac_conflict_alert plane_b = False"
  "ac_callsign plane_e = ''JBU202''" "ac_x plane_e = - 10" "ac_y plane_e = 0" "ac_z plane_e = 30000"
  "ac_speed plane_e = 450" "ac_heading plane_e = 90" "ac_conflict_alert plane_e = False"
  by (simp_all add: plane_a_def plane_b_def plane_e_def Aircraft_init_def py_mod_def)

lemma search_ab:
  "a_star_search ideal_hash (ConflictResolver_init (plane_a, plane_b) (1 / 12))
     = Inr (Some [Maneuver_init ''AAL123'' 0 (-1000) 0])"
  using search_level_pair [OF inj_ideal_hash, of "ConflictResolver_init (plane_a, plane_b) (1 / 12)"]
  by (simp add: ConflictResolver_init_def plane_fields)

lemma search_be:
  "a_star_search ideal_hash (ConflictResolver_init (plane_b, plane_e) (1 / 12))
     = Inr (Some [Maneuver_init ''UAL456'' 0 (-1000) 0])"
  using search_level_pair [OF inj_ideal_hash, of "ConflictResolver_init (plane_b, plane_e) (1 / 12)"]
  by (simp add: ConflictResolver_init_def plane_fields)

lemma clear_abe: "clear_for_scan controller_abe = scan0"
  by (simp add: clear_for_scan_def controller_abe_def add_aircraft_def ATC_Controller_init_def
      scan0_def plane_a_def plane_b_def plane_e_def Aircraft_init_def)

lemma pair_ab:
  "process_pair ideal_hash 0 (Suc 0) (scan0, [])
     = Inr (scan0\<lparr>resolved_maneuvers := [''AAL123'' \<mapsto> [Maneuver_init ''AAL123'' 0 (-1000) 0]]\<rparr>,
            [(''AAL123'', ''UAL456'', In_minutes (8 / 3), 0, 0, RESOLVED 1)])"
  by (simp add: process_pair_def scan0_def plane_fields trig_roster VERTICAL_MIN_def
      HORIZONTAL_MIN_def Let_def search_ab enqueue_all_def enqueue_def Maneuver_init_def)

lemma pair_ab': 
  "process_pair ideal_hash 0 (Suc 0) (scan0, [])
     = Inr (scan1, [(''AAL123'', ''UAL456'', In_minutes (8 / 3), 0, 0, RESOLVED 1)])"
  by (simp add: pair_ab scan1_def)

lemma process_pair_skip:
  "ac_callsign (aircraft_list c ! i) \<in> dom (resolved_maneuvers c)
   \<or> ac_callsign (aircraft_list c ! j) \<in> dom (resolved_maneuvers c) \<Longrightarrow>
   process_pair hf i j (c, conflicts) = Inr (c, conflicts)"
  by (simp add: process_pair_def Let_def)

lemma pair_ae: "process_pair ideal_hash 0 2 (scan1, rs) = Inr (scan1, rs)"
  by (rule process_pair_skip) (simp add: scan1_def scan0_def plane_fields)

lemma pair_be:
  "process_pair ideal_hash (Suc 0) 2 (scan1, cs)
     = Inr (scan2, cs @ [(''UAL456'', ''JBU202'', In_minutes 2, 0, 0, RESOLVED 1)])"
  by (simp add: process_pair_def scan1_def scan2_def scan0_def plane_fields trig_roster VERTICAL_MIN_def
      HORIZONTAL_MIN_def Let_def search_be enqueue_all_def enqueue_def Maneuver_init_def)

lemma scan_abe:
  "check_for_conflicts ideal_hash controller_abe
     = Inr (scan2,
            [(''AAL123'', ''UAL456'', In_minutes (8 / 3), 0, 0, RESOLVED 1),
             (''UAL456'', ''JBU202'', In_minutes 2, 0, 0, RESOLVED 1)])"
proof -
  have u: "[0 ..< 3] = [0, Suc 0, 2]" "[Suc 0 ..< 3] = [Suc 0, 2]" "[2 ..< 3] = [2]" "[3 ..< 3] = []"
    "[Suc 2 ..< 3] = []" "[Suc (Suc 0) ..< 3] = [2]"
    by (simp_all add: upt_rec)
  have len: "length (aircraft_list scan0) = 3" by (simp add: scan0_def)
  show ?thesis
    unfolding check_for_conflicts_def Let_def clear_abe len
    by (simp add: u pair_ab' pair_ae pair_be)
qed

text \<open>
  Claim C5 as stated fails: in the scan of \<open>controller_abe\<close> two searches are dispatched,
  for (AAL123, UAL456) and for (UAL456, JBU202). The first one queues a descent for AAL123
  only, so UAL456 has no queue when its pair with JBU202 is examined, and UAL456 is in
  both dispatched searches.
\<close>

theorem check_for_conflicts_double_dispatch_counterexample:
  "check_for_conflicts ideal_hash controller_abe
     = Inr (scan2,
            [(''AAL123'', ''UAL456'', In_minutes (8 / 3), 0, 0, RESOLVED 1),
             (''UAL456'', ''JBU202'', In_minutes 2, 0, 0, RESOLVED 1)])
   \<and> dispatched (''AAL123'', ''UAL456'', In_minutes (8 / 3), 0, 0, RESOLVED 1)
   \<and> dispatched (''UAL456'', ''JBU202'', In_minutes 2, 0, 0, RESOLVED 1)
   \<and> ''UAL456'' \<in> report_callsigns (''AAL123'', ''UAL456'', In_minutes (8 / 3), 0, 0, RESOLVED 1)
   \<and> ''UAL456'' \<in> report_callsigns (''UAL456'', ''JBU202'', In_minutes 2, 0, 0, RESOLVED 1)"
  by (simp add: scan_abe dispatched_def report_callsigns_def)

text \<open>
  Claim C5, amended. Within one scan a pair is skipped, with no search, no report and no
  change of the controller, whenever either of its agents already has a resolution queued
  in this pass; so whenever the pair's step adds a report, neither agent had a queue. (An
  agent left without a queue can be in several dispatched searches.)
\<close>

theorem queued_agents_are_skipped:
  "(ac_callsign (aircraft_list c ! i) \<in> dom (resolved_maneuvers c)
      \<or> ac_callsign (aircraft_list c ! j) \<in> dom (resolved_maneuvers c) \<longrightarrow>
        process_pair hf i j (c, conflicts) = Inr (c, conflicts))
   \<and> (process_pair hf i j (c, conflicts) = Inr (c', conflicts') \<and> conflicts' \<noteq> conflicts \<longrightarrow>
        ac_callsign (aircraft_list c ! i) \<notin> dom (resolved_maneuvers c)
      \<and> ac_callsign (aircraft_list c ! j) \<notin> dom (resolved_maneuvers c))"
proof (intro conjI impI)
  assume "ac_callsign (aircraft_list c ! i) \<in> dom (resolved_maneuvers c)
      \<or> ac_callsign (aircraft_list c ! j) \<in> dom (resolved_maneuvers c)"
  then show "process_pair hf i j (c, conflicts) = Inr (c, conflicts)"
    by (rule process_pair_skip)
next
  assume a: "process_pair hf i j (c, conflicts) = Inr (c', conflicts') \<and> conflicts' \<noteq> conflicts"
  have "\<not> (ac_callsign (aircraft_list c ! i) \<in> dom (resolved_maneuvers c)
      \<or> ac_callsign (aircraft_list c ! j) \<in> dom (resolved_maneuvers c))"
  proof
    assume "ac_callsign (aircraft_list c ! i) \<in> dom (resolved_maneuvers c)
      \<or> ac_callsign (aircraft_list c ! j) \<in> dom (resolved_maneuvers c)"
    then have "process_pair hf i j (c, conflicts) = Inr (c, conflicts)"
      by (rule process_pair_skip)
    with a show False by auto
  qed
  then show "ac_callsign (aircraft_list c ! i) \<notin> dom (resolved_maneuvers c)"
    and "ac_callsign (aircraft_list c ! j) \<notin> dom (resolved_maneuvers c)"
    by blast+
qed

theorem queued_agents_are_skipped_witness:
  "ac_callsign (aircraft_list scan1 ! 0) \<in> dom (resolved_maneuvers scan1)
   \<and> process_pair ideal_hash 0 2
        (scan1, [(''AAL123'', ''UAL456'', In_minutes (8 / 3), 0, 0, RESOLVED 1)])
       = Inr (scan1, [(''AAL123'', ''UAL456'', In_minutes (8 / 3), 0, 0, RESOLVED 1)])"
proof -
  have h: "ac_callsign (aircraft_list scan1 ! 0) \<in> dom (resolved_maneuvers scan1)"
    by (simp add: scan1_def scan0_def plane_fields)
  show ?thesis
    using h queued_agents_are_skipped [of scan1 0 2 ideal_hash
        "[(''AAL123'', ''UAL456'', In_minutes (8 / 3), 0, 0, RESOLVED 1)]"]
    by blast
qed

subsection \<open>Float sums of whole numbers and at a high altitude\<close>







lemma py_round0_int [simp]: "py_round0 (of_int n) = n"
  by (simp add: py_round0_def)

subsection \<open>The priority queue on related items\<close>








subsection \<open>The exits of the search on floats\<close>













subsection \<open>The search for the pair under one callsign\<close>







lemma py_round0_numeral [simp]: "py_round0 (numeral n) = numeral n"
  using py_round0_int [of "numeral n"] by simp

lemma py_round0_zero [simp]: "py_round0 0 = 0"
  using py_round0_int [of 0] by simp











end
